theory Spec2Isabelle
  imports Main "HOL-Library.Word"
begin

unbundle bit_operations_syntax

section \<open>rf\_motor.c: data model\<close>

text \<open>
  The MSP430 compiler gives \<open>unsigned short\<close> 16 bits and \<open>unsigned char\<close> 8 bits; both
  are modelled as machine words, so \<open>+\<close> and \<open>-\<close> wrap around and \<open><\<close>, \<open>\<le>\<close> are the
  unsigned comparisons of the C code.
\<close>

type_synonym ushort = "16 word"
type_synonym uchar = "8 word"

subsection \<open>The defines\<close>

definition PWM1_MAXSTEP :: ushort where "PWM1_MAXSTEP = 2000"
definition PWMINITIALVALUE :: ushort where "PWMINITIALVALUE = 161"
definition POSIT_START :: ushort where "POSIT_START = 161"
definition POSIT_END :: ushort where "POSIT_END = 78"
definition SPEED :: ushort where "SPEED = 3000"

definition COUNTHIGH :: ushort where "COUNTHIGH = 625"
definition COUNTLOW :: ushort where "COUNTLOW = 624"
definition COUNTOLER :: ushort where "COUNTOLER = 10"

definition VALIDATE_RF :: ushort where "VALIDATE_RF = 10"
definition WAITEND_RF :: ushort where "WAITEND_RF = 10"
definition IGNORE_RF :: ushort where "IGNORE_RF = 1000"
definition PRESCALER :: ushort where "PRESCALER = 100"

definition FALSE :: uchar where "FALSE = 0"
definition TRUE :: uchar where "TRUE = 1"

definition POSIT :: uchar where "POSIT = 0"
definition MOVINGUP :: uchar where "MOVINGUP = 1"
definition MOVINGDOWN :: uchar where "MOVINGDOWN = 2"
definition WAITINGUP :: uchar where "WAITINGUP = 3"
definition WAITINGDOWN :: uchar where "WAITINGDOWN = 4"

definition IDLE :: uchar where "IDLE = 0"
definition DETHIGH :: uchar where "DETHIGH = 1"
definition DETLOW :: uchar where "DETLOW = 2"
definition DETEND :: uchar where "DETEND = 3"

definition VALIDATE :: uchar where "VALIDATE = 1"
definition WAITDETEND :: uchar where "WAITDETEND = 2"
definition IGNORE :: uchar where "IGNORE = 3"

definition BIT0 :: uchar where "BIT0 = 0x01"
definition BIT2 :: uchar where "BIT2 = 0x04"
definition BIT5 :: uchar where "BIT5 = 0x20"
definition BIT6 :: uchar where "BIT6 = 0x40"

subsection \<open>The global variables and the port registers the code writes\<close>

record state =
  Pwm1_reach :: ushort
  Pwm1_dc :: ushort
  Pwm1_cn :: ushort
  Pwm1_State :: uchar
  Pwm1_delay :: ushort
  RfDetState :: uchar
  RfDetCounter :: ushort
  RfDetected :: uchar
  RfDetConfirmSt :: uchar
  RfPrescaler :: ushort
  RfLongDelay :: ushort
  RfShortDelay :: ushort
  Command :: uchar
  P1OUT :: uchar
  P1IE :: uchar
  P1IFG :: uchar

section \<open>rf\_motor.c: the operations\<close>

subsection \<open>Init\<close>

text \<open>
  The assignments of \<open>Init\<close> to the variables and to the two port registers of the model.
  \<open>Pwm1_delay\<close> is not assigned by \<open>Init\<close>; it keeps the value it has.
\<close>

definition Init :: "state \<Rightarrow> state" where
  "Init s = s\<lparr>
     P1OUT := 0,
     P1IE := P1IE s OR BIT6,
     Pwm1_cn := 0,
     Pwm1_dc := PWMINITIALVALUE,
     Pwm1_reach := PWMINITIALVALUE,
     Pwm1_State := POSIT,
     RfDetState := IDLE,
     RfDetCounter := 0,
     RfDetConfirmSt := IDLE,
     RfDetected := FALSE,
     RfPrescaler := PRESCALER,
     RfShortDelay := 0,
     RfLongDelay := 0,
     Command := FALSE\<rparr>"

subsection \<open>The foreground loop\<close>

text \<open>The \<open>switch(RfDetConfirmSt)\<close> of \<open>main\<close>: validation of the RF command.\<close>

definition confirm :: "state \<Rightarrow> state" where
  "confirm s =
    (if RfDetConfirmSt s = IDLE then
       (if RfDetected s \<noteq> 0 \<and> Pwm1_State s = POSIT
        then s\<lparr>RfLongDelay := VALIDATE_RF, RfDetConfirmSt := VALIDATE\<rparr>
        else s)
     else if RfDetConfirmSt s = VALIDATE then
       (if RfDetected s \<noteq> 0 then
          (if RfLongDelay s = 0
           then s\<lparr>P1OUT := P1OUT s OR BIT0, RfLongDelay := WAITEND_RF,
                  RfDetConfirmSt := WAITDETEND\<rparr>
           else s)
        else s\<lparr>RfDetConfirmSt := IDLE\<rparr>)
     else if RfDetConfirmSt s = WAITDETEND then
       (if RfDetected s = 0 then
          (if RfLongDelay s = 0
           then s\<lparr>P1OUT := P1OUT s AND NOT BIT0, Command := TRUE,
                  RfDetConfirmSt := IGNORE, RfLongDelay := IGNORE_RF\<rparr>
           else s)
        else s\<lparr>RfLongDelay := WAITEND_RF\<rparr>)
     else if RfDetConfirmSt s = IGNORE then
       (if RfLongDelay s = 0
        then s\<lparr>RfDetConfirmSt := IDLE, Command := FALSE\<rparr>
        else s)
     else s\<lparr>RfShortDelay := 0, RfLongDelay := 0, RfDetConfirmSt := IDLE\<rparr>)"

text \<open>
  The goal assignment of \<open>case POSIT\<close>: the chain of comparisons of \<open>Pwm1_dc\<close> with the
  two endpoints, branch by branch as the code has it.
\<close>

definition assign_goal :: "state \<Rightarrow> state" where
  "assign_goal s =
    (if Pwm1_dc s = POSIT_START then s\<lparr>Pwm1_reach := POSIT_END\<rparr>
     else if Pwm1_dc s < POSIT_START then s\<lparr>Pwm1_reach := POSIT_START\<rparr>
     else if Pwm1_dc s > POSIT_START then
       (if Pwm1_dc s = POSIT_END then s\<lparr>Pwm1_reach := POSIT_START\<rparr>
        else if Pwm1_dc s > POSIT_END then s\<lparr>Pwm1_reach := POSIT_END\<rparr>
        else if Pwm1_dc s < POSIT_END then s\<lparr>Pwm1_reach := POSIT_END\<rparr>
        else s)
     else s)"

text \<open>
  The second half of the loop body: the \<open>if\<close> on the trigger and the
  \<open>switch(Pwm1_State)\<close>. The argument \<open>button\<close> is what \<open>testButton(S2_BUTTON)\<close>
  returned (nonzero or zero); it is the first operand of the \<open>||\<close> chain, so it is read on
  every pass. Every value of \<open>Pwm1_State\<close> other than the four moving states takes the
  \<open>default: case POSIT:\<close> branch.
\<close>

definition positioning :: "bool \<Rightarrow> state \<Rightarrow> state" where
  "positioning button s =
    (if button \<or> Command s = TRUE \<or> Pwm1_State s = MOVINGUP \<or> Pwm1_State s = MOVINGDOWN
        \<or> Pwm1_State s = WAITINGUP \<or> Pwm1_State s = WAITINGDOWN
     then
       (if Pwm1_State s = MOVINGUP then
          (if Pwm1_dc s = Pwm1_reach s
           then s\<lparr>Command := FALSE, Pwm1_State := POSIT\<rparr>
           else s\<lparr>Pwm1_State := WAITINGUP, Pwm1_delay := SPEED, Pwm1_dc := Pwm1_dc s + 1\<rparr>)
        else if Pwm1_State s = MOVINGDOWN then
          (if Pwm1_dc s = Pwm1_reach s
           then s\<lparr>Command := FALSE, Pwm1_State := POSIT\<rparr>
           else s\<lparr>Pwm1_State := WAITINGDOWN, Pwm1_delay := SPEED, Pwm1_dc := Pwm1_dc s - 1\<rparr>)
        else if Pwm1_State s = WAITINGUP then
          (if Pwm1_delay s = 0 then s\<lparr>Pwm1_State := MOVINGUP\<rparr> else s)
        else if Pwm1_State s = WAITINGDOWN then
          (if Pwm1_delay s = 0 then s\<lparr>Pwm1_State := MOVINGDOWN\<rparr> else s)
        else
          (let g = assign_goal (s\<lparr>Command := FALSE\<rparr>)
           in if Pwm1_reach g > Pwm1_dc g
              then g\<lparr>Pwm1_State := MOVINGUP\<rparr>
              else g\<lparr>Pwm1_State := MOVINGDOWN\<rparr>))
     else s)"

text \<open>One pass of the \<open>for(;;)\<close> loop of \<open>main\<close>.\<close>

definition main_loop :: "bool \<Rightarrow> state \<Rightarrow> state" where
  "main_loop button s = positioning button (confirm s)"

subsection \<open>The timer interrupt\<close>

text \<open>
  The \<open>switch(RfDetState)\<close> of \<open>Timer_A\<close>. The argument \<open>rf_in\<close> is the level read from
  the input pin, \<open>P1IN & BIT6\<close>. \<open>TEST_ON\<close> and \<open>TEST_OFF\<close> set and clear bit 5 of
  \<open>P1OUT\<close> around the two counting states.
\<close>

definition rf_detect :: "bool \<Rightarrow> state \<Rightarrow> state" where
  "rf_detect rf_in s =
    (if RfDetState s = DETHIGH then
       (let t = s\<lparr>P1OUT := P1OUT s OR BIT5\<rparr>;
            u = (if rf_in then
                   (if RfDetCounter t < COUNTHIGH
                    then t\<lparr>RfDetCounter := RfDetCounter t + 1\<rparr>
                    else t\<lparr>RfDetState := DETLOW, RfDetCounter := 0\<rparr>)
                 else
                   (if RfDetCounter t \<ge> COUNTHIGH - COUNTOLER
                    then t\<lparr>RfDetState := DETLOW, RfDetCounter := 0\<rparr>
                    else t\<lparr>RfDetState := DETEND, RfDetected := FALSE\<rparr>))
        in u\<lparr>P1OUT := P1OUT u AND NOT BIT5\<rparr>)
     else if RfDetState s = DETLOW then
       (let t = s\<lparr>P1OUT := P1OUT s OR BIT5\<rparr>;
            u = (if \<not> rf_in then
                   (if RfDetCounter t < COUNTLOW
                    then t\<lparr>RfDetCounter := RfDetCounter t + 1\<rparr>
                    else t\<lparr>RfDetState := DETEND, RfDetCounter := 0, RfDetected := TRUE\<rparr>)
                 else
                   (if RfDetCounter t \<ge> COUNTLOW - COUNTOLER
                    then t\<lparr>RfDetState := DETEND, RfDetCounter := 0, RfDetected := TRUE\<rparr>
                    else t\<lparr>RfDetState := DETEND, RfDetected := FALSE\<rparr>))
        in u\<lparr>P1OUT := P1OUT u AND NOT BIT5\<rparr>)
     else if RfDetState s = DETEND then
       (if rf_in then s\<lparr>RfDetState := IDLE, P1IE := P1IE s OR BIT6\<rparr> else s)
     else s)"

text \<open>The three countdown blocks of \<open>Timer_A\<close>.\<close>

definition delay_management :: "state \<Rightarrow> state" where
  "delay_management s =
    (let a = (if Pwm1_delay s \<noteq> 0 then s\<lparr>Pwm1_delay := Pwm1_delay s - 1\<rparr> else s);
         b = (if RfShortDelay a \<noteq> 0 then a\<lparr>RfShortDelay := RfShortDelay a - 1\<rparr> else a)
     in if RfPrescaler b \<noteq> 0 then b\<lparr>RfPrescaler := RfPrescaler b - 1\<rparr>
        else (let c = b\<lparr>RfPrescaler := PRESCALER\<rparr>
              in if RfLongDelay c \<noteq> 0 then c\<lparr>RfLongDelay := RfLongDelay c - 1\<rparr> else c))"

text \<open>The last block of \<open>Timer_A\<close>: the software PWM on bit 2 of \<open>P1OUT\<close>.\<close>

definition pwm1_management :: "state \<Rightarrow> state" where
  "pwm1_management s =
    (if Pwm1_cn s < PWM1_MAXSTEP then
       (let t = s\<lparr>Pwm1_cn := Pwm1_cn s + 1\<rparr>
        in if Pwm1_cn t \<le> Pwm1_dc t
           then t\<lparr>P1OUT := P1OUT t OR BIT2\<rparr>
           else t\<lparr>P1OUT := P1OUT t AND NOT BIT2\<rparr>)
     else s\<lparr>Pwm1_cn := 0, P1OUT := P1OUT s AND NOT BIT2\<rparr>)"

definition Timer_A :: "bool \<Rightarrow> state \<Rightarrow> state" where
  "Timer_A rf_in s =
    pwm1_management (delay_management
      (if Pwm1_State s = POSIT then rf_detect rf_in s else s))"

subsection \<open>The port interrupt\<close>

text \<open>
  \<open>Port1_isr\<close> with the level \<open>rf_in\<close> read from \<open>P1IN & BIT6\<close>; the interrupt flag is the
  register \<open>P1IFG\<close> of the state.
\<close>

definition Port1_isr :: "bool \<Rightarrow> state \<Rightarrow> state" where
  "Port1_isr rf_in s =
    (if P1IFG s AND BIT6 \<noteq> 0 then
       (let t = (if rf_in
                 then s\<lparr>RfDetState := DETHIGH, RfDetCounter := 0, P1IE := P1IE s AND NOT BIT6\<rparr>
                 else s)
        in t\<lparr>P1IFG := P1IFG t AND NOT BIT6\<rparr>)
     else s)"

subsection \<open>Executions\<close>

text \<open>
  An execution is a sequence of events: a pass of the foreground loop with the value
  \<open>testButton\<close> returned, a timer interrupt with the level of the RF input, or a port
  interrupt with the flag register the hardware presents and the level of the RF input.
  Each event runs to completion; the events come in any order and with any inputs.
\<close>

datatype event = Loop bool | Tick bool | Edge uchar bool

fun exec :: "event \<Rightarrow> state \<Rightarrow> state" where
  "exec (Loop button) s = main_loop button s"
| "exec (Tick rf_in) s = Timer_A rf_in s"
| "exec (Edge ifg rf_in) s = Port1_isr rf_in (s\<lparr>P1IFG := ifg\<rparr>)"

fun run :: "event list \<Rightarrow> state \<Rightarrow> state" where
  "run [] s = s"
| "run (e # es) s = run es (exec e s)"

text \<open>The number of timer interrupts in an execution.\<close>

fun ticks_in :: "event list \<Rightarrow> nat" where
  "ticks_in [] = 0"
| "ticks_in (Tick rf_in # es) = Suc (ticks_in es)"
| "ticks_in (e # es) = ticks_in es"

text \<open>The level of the PWM pin, bit 2 of \<open>P1OUT\<close>.\<close>

definition pwm1_out :: "state \<Rightarrow> bool" where
  "pwm1_out s = (P1OUT s AND BIT2 \<noteq> 0)"

text \<open>
  The memory before \<open>Init\<close>: the C run time clears the global variables. The port
  registers are given the value 0 too; \<open>Init\<close> overwrites \<open>P1OUT\<close>.
\<close>

definition power_up :: state where
  "power_up = \<lparr>Pwm1_reach = 0, Pwm1_dc = 0, Pwm1_cn = 0, Pwm1_State = 0, Pwm1_delay = 0,
     RfDetState = 0, RfDetCounter = 0, RfDetected = 0, RfDetConfirmSt = 0, RfPrescaler = 0,
     RfLongDelay = 0, RfShortDelay = 0, Command = 0, P1OUT = 0, P1IE = 0, P1IFG = 0\<rparr>"

subsection \<open>Motion of the arm\<close>

definition moving :: "state \<Rightarrow> bool" where
  "moving s \<longleftrightarrow> Pwm1_State s = MOVINGUP \<or> Pwm1_State s = MOVINGDOWN
     \<or> Pwm1_State s = WAITINGUP \<or> Pwm1_State s = WAITINGDOWN"

text \<open>
  \<open>travel es s\<close> follows the execution \<open>es\<close> from \<open>s\<close> up to the first state that is
  not moving (or to the end of \<open>es\<close>, if the arm is still moving then), and returns the
  state it stops in with the number of events that changed \<open>Pwm1_dc\<close> on the way.
\<close>

fun travel :: "event list \<Rightarrow> state \<Rightarrow> state \<times> nat" where
  "travel [] s = (s, 0)"
| "travel (e # es) s =
    (if moving s then
       (case travel es (exec e s) of
          (t, k) \<Rightarrow> (t, if Pwm1_dc (exec e s) = Pwm1_dc s then k else Suc k))
     else (s, 0))"

text \<open>The same event without a press of the button.\<close>

fun untriggered :: "event \<Rightarrow> event" where
  "untriggered (Loop b) = Loop False"
| "untriggered (Tick r) = Tick r"
| "untriggered (Edge f r) = Edge f r"

text \<open>
  \<open>rounds es\<close> counts how often, reading \<open>es\<close> from the left, a pass of the foreground
  loop and a timer interrupt have both occurred (in either order) since the last count.
  It measures how long both the loop and the timer have kept running.
\<close>

fun rounds_from :: "bool \<Rightarrow> bool \<Rightarrow> event list \<Rightarrow> nat" where
  "rounds_from l t [] = 0"
| "rounds_from l t (Loop b # es) =
    (if t then Suc (rounds_from False False es) else rounds_from True False es)"
| "rounds_from l t (Tick r # es) =
    (if l then Suc (rounds_from False False es) else rounds_from False True es)"
| "rounds_from l t (Edge f r # es) = rounds_from l t es"

definition rounds :: "event list \<Rightarrow> nat" where
  "rounds es = rounds_from False False es"

text \<open>
  The schedule in which a pass of the foreground loop without a button press and a timer
  interrupt with the RF input low follow each other \<open>n\<close> times.
\<close>

definition alternating :: "nat \<Rightarrow> event list" where
  "alternating n = concat (replicate n [Loop False, Tick False])"

text \<open>The distance between two duty cycles, in steps.\<close>

definition dist :: "ushort \<Rightarrow> ushort \<Rightarrow> nat" where
  "dist a b = (if a \<le> b then unat b - unat a else unat a - unat b)"

text \<open>
  The tie-break rule as the specification words it, for endpoints \<open>Start\<close> and \<open>End\<close>
  and the current duty cycle \<open>dc\<close>; it is compared with \<open>assign_goal\<close> below.
\<close>

definition spec_target :: "ushort \<Rightarrow> ushort \<Rightarrow> ushort \<Rightarrow> ushort" where
  "spec_target Start End dc =
    (if dc = Start then End
     else if dc < Start then Start
     else (if dc = End then Start else if dc > End then End else End))"

section \<open>pwmtest2.c\<close>

text \<open>
  The test program has the same five \<open>Pwm1_\<close> variables and the same PWM block in its
  timer interrupt; its model works on the same record and leaves the RF fields alone.
  Its defines that differ from those of rf\_motor.c carry the prefix \<open>pt2_\<close>.
\<close>

definition pt2_PWMINITIALVALUE :: ushort where "pt2_PWMINITIALVALUE = 36"
definition POSIT1 :: ushort where "POSIT1 = 78"
definition POSIT2 :: ushort where "POSIT2 = 161"

definition pt2_RESET :: uchar where "pt2_RESET = 0"
definition pt2_POSIT :: uchar where "pt2_POSIT = 1"
definition pt2_POSITOLD :: uchar where "pt2_POSITOLD = 2"
definition pt2_MOVINGUP :: uchar where "pt2_MOVINGUP = 3"
definition pt2_MOVINGDOWN :: uchar where "pt2_MOVINGDOWN = 4"
definition pt2_WAITINGUP :: uchar where "pt2_WAITINGUP = 5"
definition pt2_WAITINGDOWN :: uchar where "pt2_WAITINGDOWN = 6"
definition pt2_INCREASE :: uchar where "pt2_INCREASE = 7"
definition pt2_DECREASE :: uchar where "pt2_DECREASE = 8"

definition pt2_Init :: "state \<Rightarrow> state" where
  "pt2_Init s = s\<lparr>
     P1OUT := 0,
     Pwm1_cn := 0,
     Pwm1_dc := pt2_PWMINITIALVALUE,
     Pwm1_reach := pt2_PWMINITIALVALUE,
     Pwm1_State := pt2_RESET\<rparr>"

text \<open>The first \<open>switch\<close> of the loop: button S1 steps through the modes.\<close>

definition pt2_mode :: "bool \<Rightarrow> state \<Rightarrow> state" where
  "pt2_mode s1 s =
    (if s1 then
       (if Pwm1_State s = pt2_POSIT then s\<lparr>Pwm1_State := pt2_POSITOLD\<rparr>
        else if Pwm1_State s = pt2_POSITOLD then s\<lparr>Pwm1_State := pt2_INCREASE\<rparr>
        else if Pwm1_State s = pt2_INCREASE then s\<lparr>Pwm1_State := pt2_DECREASE\<rparr>
        else if Pwm1_State s = pt2_DECREASE then s\<lparr>Pwm1_State := pt2_RESET\<rparr>
        else if Pwm1_State s = pt2_MOVINGUP \<or> Pwm1_State s = pt2_MOVINGDOWN
                \<or> Pwm1_State s = pt2_WAITINGUP \<or> Pwm1_State s = pt2_WAITINGDOWN then s
        else s\<lparr>Pwm1_State := pt2_POSIT\<rparr>)
     else s)"

text \<open>\<open>case POSIT\<close> of the second \<open>switch\<close>: goal and direction.\<close>

definition pt2_goal :: "state \<Rightarrow> state" where
  "pt2_goal s =
    (if Pwm1_dc s = POSIT1 then s\<lparr>Pwm1_reach := POSIT2, Pwm1_State := pt2_MOVINGUP\<rparr>
     else if Pwm1_dc s < POSIT1 then s\<lparr>Pwm1_reach := POSIT1, Pwm1_State := pt2_MOVINGUP\<rparr>
     else if Pwm1_dc s > POSIT1 then
       (if Pwm1_dc s = POSIT2 then s\<lparr>Pwm1_reach := POSIT1, Pwm1_State := pt2_MOVINGDOWN\<rparr>
        else if Pwm1_dc s > POSIT2 then s\<lparr>Pwm1_reach := POSIT2, Pwm1_State := pt2_MOVINGDOWN\<rparr>
        else if Pwm1_dc s < POSIT2 then s\<lparr>Pwm1_reach := POSIT2, Pwm1_State := pt2_MOVINGUP\<rparr>
        else s)
     else s)"

text \<open>The second \<open>switch\<close>: button S2, or a motion in progress, acts in the current mode.\<close>

definition pt2_act :: "bool \<Rightarrow> state \<Rightarrow> state" where
  "pt2_act s2 s =
    (if s2 \<or> Pwm1_State s = pt2_MOVINGUP \<or> Pwm1_State s = pt2_MOVINGDOWN
        \<or> Pwm1_State s = pt2_WAITINGUP \<or> Pwm1_State s = pt2_WAITINGDOWN
     then
       (if Pwm1_State s = pt2_POSIT then pt2_goal s
        else if Pwm1_State s = pt2_POSITOLD then
          (if Pwm1_dc s \<noteq> POSIT1 then s\<lparr>Pwm1_dc := POSIT1\<rparr> else s\<lparr>Pwm1_dc := POSIT2\<rparr>)
        else if Pwm1_State s = pt2_INCREASE then
          (if Pwm1_dc s < PWM1_MAXSTEP then s\<lparr>Pwm1_dc := Pwm1_dc s + 1\<rparr> else s)
        else if Pwm1_State s = pt2_DECREASE then
          (if Pwm1_dc s > 0 then s\<lparr>Pwm1_dc := Pwm1_dc s - 1\<rparr> else s)
        else if Pwm1_State s = pt2_MOVINGUP then
          (if Pwm1_dc s = Pwm1_reach s then s\<lparr>Pwm1_State := pt2_POSIT\<rparr>
           else s\<lparr>Pwm1_State := pt2_WAITINGUP, Pwm1_delay := SPEED, Pwm1_dc := Pwm1_dc s + 1\<rparr>)
        else if Pwm1_State s = pt2_MOVINGDOWN then
          (if Pwm1_dc s = Pwm1_reach s then s\<lparr>Pwm1_State := pt2_POSIT\<rparr>
           else s\<lparr>Pwm1_State := pt2_WAITINGDOWN, Pwm1_delay := SPEED, Pwm1_dc := Pwm1_dc s - 1\<rparr>)
        else if Pwm1_State s = pt2_WAITINGUP then
          (if Pwm1_delay s = 0 then s\<lparr>Pwm1_State := pt2_MOVINGUP\<rparr> else s)
        else if Pwm1_State s = pt2_WAITINGDOWN then
          (if Pwm1_delay s = 0 then s\<lparr>Pwm1_State := pt2_MOVINGDOWN\<rparr> else s)
        else s\<lparr>Pwm1_dc := pt2_PWMINITIALVALUE\<rparr>)
     else s)"

text \<open>The debug LED at the end of the loop body.\<close>

definition pt2_debug :: "state \<Rightarrow> state" where
  "pt2_debug s =
    (if Pwm1_dc s \<ge> 36 \<and> Pwm1_dc s \<le> 220
     then s\<lparr>P1OUT := P1OUT s OR BIT0\<rparr>
     else s\<lparr>P1OUT := P1OUT s AND NOT BIT0\<rparr>)"

text \<open>
  One pass of the loop, with the values the two calls of \<open>testButton\<close> returned, and the
  timer interrupt of the test program.
\<close>

definition pt2_main_loop :: "bool \<Rightarrow> bool \<Rightarrow> state \<Rightarrow> state" where
  "pt2_main_loop s1 s2 s = pt2_debug (pt2_act s2 (pt2_mode s1 s))"

definition pt2_Timer_A :: "state \<Rightarrow> state" where
  "pt2_Timer_A s =
    pwm1_management (if Pwm1_delay s \<noteq> 0 then s\<lparr>Pwm1_delay := Pwm1_delay s - 1\<rparr> else s)"

datatype pt2_event = PLoop bool bool | PTick

fun pt2_exec :: "pt2_event \<Rightarrow> state \<Rightarrow> state" where
  "pt2_exec (PLoop s1 s2) s = pt2_main_loop s1 s2 s"
| "pt2_exec PTick s = pt2_Timer_A s"

fun pt2_run :: "pt2_event list \<Rightarrow> state \<Rightarrow> state" where
  "pt2_run [] s = s"
| "pt2_run (e # es) s = pt2_run es (pt2_exec e s)"

text \<open>
  While the arm moves, the next change of the positioning machine is made either by the
  foreground loop (in a \<open>MOVING\<close> state, or in a \<open>WAITING\<close> state whose delay has
  run out) or by the timer (in a \<open>WAITING\<close> state whose delay is still running).
\<close>

definition awaits_loop :: "state \<Rightarrow> bool" where
  "awaits_loop s \<longleftrightarrow> Pwm1_State s = MOVINGUP \<or> Pwm1_State s = MOVINGDOWN
     \<or> ((Pwm1_State s = WAITINGUP \<or> Pwm1_State s = WAITINGDOWN) \<and> Pwm1_delay s = 0)"

definition awaits_tick :: "state \<Rightarrow> bool" where
  "awaits_tick s \<longleftrightarrow>
     (Pwm1_State s = WAITINGUP \<or> Pwm1_State s = WAITINGDOWN) \<and> Pwm1_delay s \<noteq> 0"

text \<open>
  The number of such changes still to come before the arm is at rest: per remaining step
  one pass that takes it, \<open>SPEED\<close> ticks of delay and one pass that ends the wait, and a
  last pass that finds the goal reached.
\<close>

definition todo :: "state \<Rightarrow> nat" where
  "todo s =
    (if Pwm1_State s = MOVINGUP \<or> Pwm1_State s = MOVINGDOWN
     then dist (Pwm1_dc s) (Pwm1_reach s) * (unat SPEED + 2) + 1
     else if Pwm1_State s = WAITINGUP \<or> Pwm1_State s = WAITINGDOWN
     then dist (Pwm1_dc s) (Pwm1_reach s) * (unat SPEED + 2) + 2 + unat (Pwm1_delay s)
     else 0)"

subsection \<open>Confirmation of a command\<close>

text \<open>
  \<open>held d es s\<close>: in every state the execution \<open>es\<close> visits from \<open>s\<close>, the first and
  the last included, the flag \<open>RfDetected\<close> is set (\<open>d\<close> true) or clear (\<open>d\<close> false).
\<close>

fun held :: "bool \<Rightarrow> event list \<Rightarrow> state \<Rightarrow> bool" where
  "held d [] s = ((RfDetected s \<noteq> 0) = d)"
| "held d (e # es) s = (((RfDetected s \<noteq> 0) = d) \<and> held d es (exec e s))"

text \<open>
  \<open>commands es s\<close> counts the loop passes of the execution \<open>es\<close> from \<open>s\<close> in which
  the confirmation switch turns \<open>Command\<close> from another value into \<open>TRUE\<close>: the moments
  at which \<open>Command\<close> becomes true. (The positioning switch of the same pass may consume
  it at once, so the count looks at the value between the two switches.)
\<close>

fun commands :: "event list \<Rightarrow> state \<Rightarrow> nat" where
  "commands [] s = 0"
| "commands (Loop b # es) s =
    (if Command s \<noteq> TRUE \<and> Command (confirm s) = TRUE
     then Suc (commands es (exec (Loop b) s)) else commands es (exec (Loop b) s))"
| "commands (e # es) s = commands es (exec e s)"

text \<open>
  \<open>confirmations es s\<close> counts the events at which the confirmation machine goes from
  \<open>WAITDETEND\<close> to \<open>IGNORE\<close>. It is shown below to be the same number, from every
  state in which \<open>Command\<close> is not \<open>TRUE\<close> or the machine is in \<open>IGNORE\<close>.
\<close>

fun confirmations :: "event list \<Rightarrow> state \<Rightarrow> nat" where
  "confirmations [] s = 0"
| "confirmations (e # es) s =
    (if RfDetConfirmSt s = WAITDETEND \<and> RfDetConfirmSt (exec e s) = IGNORE
     then Suc (confirmations es (exec e s)) else confirmations es (exec e s))"

text \<open>The number of passes of the foreground loop in an execution.\<close>

fun loops_in :: "event list \<Rightarrow> nat" where
  "loops_in [] = 0"
| "loops_in (Loop b # es) = Suc (loops_in es)"
| "loops_in (e # es) = loops_in es"

text \<open>
  One clean period of the carrier envelope as the interrupts see it, up to the read that
  qualifies it: a rising edge, \<open>COUNTHIGH\<close> HIGH reads and \<open>COUNTLOW\<close> LOW reads.
\<close>

definition carrier :: "event list" where
  "carrier = Edge BIT6 True # replicate 625 (Tick True) @ replicate 624 (Tick False)"

text \<open>
  The state in which the program has just qualified the first period of the carrier after
  power-up: 62 reads of an idle line, one period, and the HIGH read that ends its LOW run.
\<close>

definition received :: state where
  "received = run (replicate 62 (Tick False) @ carrier @ [Tick True]) (Init power_up)"

text \<open>
  The number of timer interrupts a long delay loaded with \<open>L\<close> in state \<open>s\<close> takes to
  reach 0: the prescaler runs out after \<open>RfPrescaler s + 1\<close> ticks and then every
  \<open>PRESCALER + 1\<close> ticks, and takes one unit off each time.
\<close>

definition countdown :: "ushort \<Rightarrow> state \<Rightarrow> nat" where
  "countdown L s =
    (if L = 0 then 0
     else (unat L - 1) * (unat PRESCALER + 1) + unat (RfPrescaler s) + 1)"

text \<open>
  A lower bound for the number of timer interrupts before the confirmation machine, in
  state \<open>s\<close>, can confirm a command: what is left of the countdown in progress, and the
  shortest validation and wait-end countdowns that are still to come.
\<close>

definition earliest :: "state \<Rightarrow> nat" where
  "earliest s =
    (let v = (unat VALIDATE_RF - 1) * (unat PRESCALER + 1) + 1;
         w = (unat WAITEND_RF - 1) * (unat PRESCALER + 1) + 1;
         c = countdown (RfLongDelay s) s
     in if RfDetConfirmSt s = WAITDETEND then min w c
        else if RfDetConfirmSt s = VALIDATE then min v c + w
        else if RfDetConfirmSt s = IGNORE then c + v + w
        else v + w)"

section \<open>Invariants\<close>

text \<open>The direction of a motion agrees with the side on which the goal lies.\<close>

definition dir_ok :: "state \<Rightarrow> bool" where
  "dir_ok s \<longleftrightarrow>
     ((Pwm1_State s = MOVINGUP \<or> Pwm1_State s = WAITINGUP) \<longrightarrow> Pwm1_dc s \<le> Pwm1_reach s)
   \<and> ((Pwm1_State s = MOVINGDOWN \<or> Pwm1_State s = WAITINGDOWN) \<longrightarrow> Pwm1_reach s \<le> Pwm1_dc s)"

definition pos_inv :: "state \<Rightarrow> bool" where
  "pos_inv s \<longleftrightarrow>
     POSIT_END \<le> Pwm1_dc s \<and> Pwm1_dc s \<le> POSIT_START
   \<and> (Pwm1_reach s = POSIT_START \<or> Pwm1_reach s = POSIT_END)
   \<and> dir_ok s"

definition pt2_inv :: "state \<Rightarrow> bool" where
  "pt2_inv s \<longleftrightarrow>
     Pwm1_dc s \<le> PWM1_MAXSTEP
   \<and> ((Pwm1_State s = pt2_MOVINGUP \<or> Pwm1_State s = pt2_WAITINGUP) \<longrightarrow>
        Pwm1_dc s \<le> Pwm1_reach s \<and> Pwm1_reach s \<le> PWM1_MAXSTEP)
   \<and> ((Pwm1_State s = pt2_MOVINGDOWN \<or> Pwm1_State s = pt2_WAITINGDOWN) \<longrightarrow>
        Pwm1_reach s \<le> Pwm1_dc s)"

section \<open>Constants and basic facts\<close>

lemmas pwm_consts = PWM1_MAXSTEP_def PWMINITIALVALUE_def POSIT_START_def POSIT_END_def SPEED_def
lemmas rf_consts = COUNTHIGH_def COUNTLOW_def COUNTOLER_def VALIDATE_RF_def WAITEND_RF_def
  IGNORE_RF_def PRESCALER_def
lemmas bool_consts = FALSE_def TRUE_def
lemmas pwm_states = POSIT_def MOVINGUP_def MOVINGDOWN_def WAITINGUP_def WAITINGDOWN_def
lemmas det_states = IDLE_def DETHIGH_def DETLOW_def DETEND_def
lemmas confirm_states = IDLE_def VALIDATE_def WAITDETEND_def IGNORE_def
lemmas bit_consts = BIT0_def BIT2_def BIT5_def BIT6_def
lemmas pt2_consts = pt2_PWMINITIALVALUE_def POSIT1_def POSIT2_def
lemmas pt2_states = pt2_RESET_def pt2_POSIT_def pt2_POSITOLD_def pt2_MOVINGUP_def
  pt2_MOVINGDOWN_def pt2_WAITINGUP_def pt2_WAITINGDOWN_def pt2_INCREASE_def pt2_DECREASE_def

subsection \<open>Words\<close>

lemma unat_inc: "x < (m::'a::len word) \<Longrightarrow> unat (x + 1) = Suc (unat x)"
  by unat_arith

lemma unat_dec: "(x::'a::len word) \<noteq> 0 \<Longrightarrow> unat (x - 1) = unat x - 1"
  by (rule unat_minus_one)

lemma or_and_same: "((w::uchar) OR b) AND b = b"
  by (rule bit_eqI) (auto simp: bit_simps)

lemma andnot_and_same: "((w::uchar) AND NOT b) AND b = 0"
  by (rule bit_eqI) (auto simp: bit_simps)

lemma BIT2_nonzero: "BIT2 \<noteq> 0"
  by (simp add: BIT2_def)

subsection \<open>What each block leaves alone\<close>

lemma Init_fields:
  "Pwm1_cn (Init s) = 0" "Pwm1_dc (Init s) = PWMINITIALVALUE"
  "Pwm1_reach (Init s) = PWMINITIALVALUE" "Pwm1_State (Init s) = POSIT"
  "Command (Init s) = FALSE" "RfDetState (Init s) = IDLE" "RfDetCounter (Init s) = 0"
  "RfDetConfirmSt (Init s) = IDLE" "RfDetected (Init s) = FALSE"
  "RfPrescaler (Init s) = PRESCALER" "RfLongDelay (Init s) = 0"
  "Pwm1_delay (Init s) = Pwm1_delay s"
  by (simp_all add: Init_def)

lemma rf_detect_keeps [simp]:
  "Pwm1_cn (rf_detect l s) = Pwm1_cn s"
  "Pwm1_dc (rf_detect l s) = Pwm1_dc s"
  "Pwm1_reach (rf_detect l s) = Pwm1_reach s"
  "Pwm1_State (rf_detect l s) = Pwm1_State s"
  "Pwm1_delay (rf_detect l s) = Pwm1_delay s"
  "Command (rf_detect l s) = Command s"
  "RfDetConfirmSt (rf_detect l s) = RfDetConfirmSt s"
  "RfLongDelay (rf_detect l s) = RfLongDelay s"
  "RfPrescaler (rf_detect l s) = RfPrescaler s"
  "RfShortDelay (rf_detect l s) = RfShortDelay s"
  by (simp_all add: rf_detect_def Let_def)

lemma delay_management_keeps [simp]:
  "Pwm1_cn (delay_management s) = Pwm1_cn s"
  "Pwm1_dc (delay_management s) = Pwm1_dc s"
  "Pwm1_reach (delay_management s) = Pwm1_reach s"
  "Pwm1_State (delay_management s) = Pwm1_State s"
  "Command (delay_management s) = Command s"
  "RfDetConfirmSt (delay_management s) = RfDetConfirmSt s"
  "RfDetState (delay_management s) = RfDetState s"
  "RfDetCounter (delay_management s) = RfDetCounter s"
  "RfDetected (delay_management s) = RfDetected s"
  "P1OUT (delay_management s) = P1OUT s"
  by (simp_all add: delay_management_def Let_def)

lemma delay_management_delay:
  "Pwm1_delay (delay_management s) = (if Pwm1_delay s \<noteq> 0 then Pwm1_delay s - 1 else 0)"
  by (simp add: delay_management_def Let_def)

lemma delay_management_long:
  "RfPrescaler (delay_management s) =
     (if RfPrescaler s \<noteq> 0 then RfPrescaler s - 1 else PRESCALER)"
  "RfLongDelay (delay_management s) =
     (if RfPrescaler s = 0 \<and> RfLongDelay s \<noteq> 0 then RfLongDelay s - 1 else RfLongDelay s)"
  by (simp_all add: delay_management_def Let_def)

lemma pwm1_management_keeps [simp]:
  "Pwm1_dc (pwm1_management s) = Pwm1_dc s"
  "Pwm1_reach (pwm1_management s) = Pwm1_reach s"
  "Pwm1_State (pwm1_management s) = Pwm1_State s"
  "Pwm1_delay (pwm1_management s) = Pwm1_delay s"
  "Command (pwm1_management s) = Command s"
  "RfDetConfirmSt (pwm1_management s) = RfDetConfirmSt s"
  "RfDetState (pwm1_management s) = RfDetState s"
  "RfDetCounter (pwm1_management s) = RfDetCounter s"
  "RfDetected (pwm1_management s) = RfDetected s"
  "RfLongDelay (pwm1_management s) = RfLongDelay s"
  "RfPrescaler (pwm1_management s) = RfPrescaler s"
  by (simp_all add: pwm1_management_def Let_def)

lemma pwm1_management_cn:
  "Pwm1_cn (pwm1_management s) = (if Pwm1_cn s < PWM1_MAXSTEP then Pwm1_cn s + 1 else 0)"
  by (simp add: pwm1_management_def Let_def)

lemma pwm1_management_out:
  "pwm1_out (pwm1_management s) \<longleftrightarrow> Pwm1_cn s < PWM1_MAXSTEP \<and> Pwm1_cn s + 1 \<le> Pwm1_dc s"
  by (simp add: pwm1_management_def Let_def pwm1_out_def or_and_same andnot_and_same BIT2_nonzero)

lemma Timer_A_keeps [simp]:
  "Pwm1_dc (Timer_A l s) = Pwm1_dc s"
  "Pwm1_reach (Timer_A l s) = Pwm1_reach s"
  "Pwm1_State (Timer_A l s) = Pwm1_State s"
  "Command (Timer_A l s) = Command s"
  "RfDetConfirmSt (Timer_A l s) = RfDetConfirmSt s"
  by (simp_all add: Timer_A_def)

lemma Timer_A_cn:
  "Pwm1_cn (Timer_A l s) = (if Pwm1_cn s < PWM1_MAXSTEP then Pwm1_cn s + 1 else 0)"
  by (simp add: Timer_A_def pwm1_management_cn)

lemma Timer_A_out:
  "pwm1_out (Timer_A l s) \<longleftrightarrow> Pwm1_cn s < PWM1_MAXSTEP \<and> Pwm1_cn s + 1 \<le> Pwm1_dc s"
  by (simp add: Timer_A_def pwm1_management_out)

lemma Timer_A_delay:
  "Pwm1_delay (Timer_A l s) = (if Pwm1_delay s \<noteq> 0 then Pwm1_delay s - 1 else 0)"
  by (simp add: Timer_A_def delay_management_delay)

lemma Timer_A_long:
  "RfPrescaler (Timer_A l s) = (if RfPrescaler s \<noteq> 0 then RfPrescaler s - 1 else PRESCALER)"
  "RfLongDelay (Timer_A l s) =
     (if RfPrescaler s = 0 \<and> RfLongDelay s \<noteq> 0 then RfLongDelay s - 1 else RfLongDelay s)"
  by (simp_all add: Timer_A_def delay_management_long)

lemma Timer_A_det:
  "RfDetState (Timer_A l s) = RfDetState (if Pwm1_State s = POSIT then rf_detect l s else s)"
  "RfDetCounter (Timer_A l s) = RfDetCounter (if Pwm1_State s = POSIT then rf_detect l s else s)"
  "RfDetected (Timer_A l s) = RfDetected (if Pwm1_State s = POSIT then rf_detect l s else s)"
  by (simp_all add: Timer_A_def)

lemma confirm_keeps [simp]:
  "Pwm1_cn (confirm s) = Pwm1_cn s"
  "Pwm1_dc (confirm s) = Pwm1_dc s"
  "Pwm1_reach (confirm s) = Pwm1_reach s"
  "Pwm1_State (confirm s) = Pwm1_State s"
  "Pwm1_delay (confirm s) = Pwm1_delay s"
  "RfDetState (confirm s) = RfDetState s"
  "RfDetCounter (confirm s) = RfDetCounter s"
  "RfDetected (confirm s) = RfDetected s"
  "RfPrescaler (confirm s) = RfPrescaler s"
  by (simp_all add: confirm_def)

lemma assign_goal_keeps [simp]:
  "Pwm1_cn (assign_goal s) = Pwm1_cn s"
  "Pwm1_dc (assign_goal s) = Pwm1_dc s"
  "Pwm1_State (assign_goal s) = Pwm1_State s"
  "Pwm1_delay (assign_goal s) = Pwm1_delay s"
  "Command (assign_goal s) = Command s"
  "RfDetState (assign_goal s) = RfDetState s"
  "RfDetCounter (assign_goal s) = RfDetCounter s"
  "RfDetected (assign_goal s) = RfDetected s"
  "RfDetConfirmSt (assign_goal s) = RfDetConfirmSt s"
  "RfLongDelay (assign_goal s) = RfLongDelay s"
  "RfPrescaler (assign_goal s) = RfPrescaler s"
  by (simp_all add: assign_goal_def)

lemma positioning_keeps [simp]:
  "Pwm1_cn (positioning b s) = Pwm1_cn s"
  "RfDetState (positioning b s) = RfDetState s"
  "RfDetCounter (positioning b s) = RfDetCounter s"
  "RfDetected (positioning b s) = RfDetected s"
  "RfDetConfirmSt (positioning b s) = RfDetConfirmSt s"
  "RfLongDelay (positioning b s) = RfLongDelay s"
  "RfPrescaler (positioning b s) = RfPrescaler s"
  by (simp_all add: positioning_def Let_def)

lemma main_loop_keeps [simp]:
  "Pwm1_cn (main_loop b s) = Pwm1_cn s"
  "RfDetState (main_loop b s) = RfDetState s"
  "RfDetCounter (main_loop b s) = RfDetCounter s"
  "RfDetected (main_loop b s) = RfDetected s"
  "RfPrescaler (main_loop b s) = RfPrescaler s"
  by (simp_all add: main_loop_def)

lemma Port1_isr_keeps [simp]:
  "Pwm1_cn (Port1_isr l s) = Pwm1_cn s"
  "Pwm1_dc (Port1_isr l s) = Pwm1_dc s"
  "Pwm1_reach (Port1_isr l s) = Pwm1_reach s"
  "Pwm1_State (Port1_isr l s) = Pwm1_State s"
  "Pwm1_delay (Port1_isr l s) = Pwm1_delay s"
  "Command (Port1_isr l s) = Command s"
  "RfDetected (Port1_isr l s) = RfDetected s"
  "RfDetConfirmSt (Port1_isr l s) = RfDetConfirmSt s"
  "RfLongDelay (Port1_isr l s) = RfLongDelay s"
  "RfPrescaler (Port1_isr l s) = RfPrescaler s"
  by (simp_all add: Port1_isr_def Let_def)

text \<open>The definitions that evaluate an execution from a given state.\<close>

lemmas run_defs = power_up_def Init_def main_loop_def confirm_def positioning_def assign_goal_def
  Timer_A_def rf_detect_def delay_management_def pwm1_management_def Port1_isr_def Let_def
  moving_def pwm_consts rf_consts bool_consts pwm_states det_states confirm_states bit_consts

section \<open>The PWM output generator\<close>

text \<open>
  C2. On every call of \<open>Timer_A\<close>: when the counter \<open>Pwm1_cn\<close> is below
  \<open>PWM1_MAXSTEP\<close>, the call increments it and writes the PWM pin HIGH if and only if the
  counter (as incremented, the value the code compares) is at most \<open>Pwm1_dc\<close>; when the
  counter has reached \<open>PWM1_MAXSTEP\<close>, the call resets it to 0 and writes the pin LOW,
  whatever \<open>Pwm1_dc\<close> is.
\<close>

theorem pwm_output_level:
  "(Pwm1_cn s < PWM1_MAXSTEP \<longrightarrow>
      Pwm1_cn (Timer_A rf_in s) = Pwm1_cn s + 1 \<and>
      (pwm1_out (Timer_A rf_in s) \<longleftrightarrow> Pwm1_cn (Timer_A rf_in s) \<le> Pwm1_dc (Timer_A rf_in s)))
   \<and> (\<not> Pwm1_cn s < PWM1_MAXSTEP \<longrightarrow>
      Pwm1_cn (Timer_A rf_in s) = 0 \<and> \<not> pwm1_out (Timer_A rf_in s))"
  by (simp add: Timer_A_cn Timer_A_out)

theorem pwm_output_level_witness:
  "Pwm1_cn (Init power_up) < PWM1_MAXSTEP \<and> pwm1_out (Timer_A True (Init power_up))
   \<and> \<not> Pwm1_cn (Init power_up\<lparr>Pwm1_cn := PWM1_MAXSTEP\<rparr>) < PWM1_MAXSTEP
   \<and> \<not> pwm1_out (Timer_A True (Init power_up\<lparr>Pwm1_cn := PWM1_MAXSTEP\<rparr>))"
  using pwm_output_level [of "Init power_up" True]
    pwm_output_level [of "Init power_up\<lparr>Pwm1_cn := PWM1_MAXSTEP\<rparr>" True]
  by (simp add: Init_fields PWM1_MAXSTEP_def PWMINITIALVALUE_def)

subsection \<open>The cycle counter\<close>

lemma tick_cn_unat:
  assumes "unat (Pwm1_cn s) \<le> 2000"
  shows "unat (Pwm1_cn (Timer_A l s)) = Suc (unat (Pwm1_cn s)) mod 2001"
proof (cases "Pwm1_cn s < PWM1_MAXSTEP")
  case True
  then have "unat (Pwm1_cn s) < 2000"
    by (simp add: PWM1_MAXSTEP_def word_less_nat_alt)
  with True show ?thesis
    by (simp add: Timer_A_cn unat_inc)
next
  case False
  then have "\<not> unat (Pwm1_cn s) < 2000"
    by (simp add: PWM1_MAXSTEP_def word_less_nat_alt)
  with assms have "unat (Pwm1_cn s) = 2000" by simp
  with False show ?thesis
    by (simp add: Timer_A_cn)
qed

lemma run_cn_unat:
  "unat (Pwm1_cn s) \<le> 2000 \<Longrightarrow>
   unat (Pwm1_cn (run es s)) = (unat (Pwm1_cn s) + ticks_in es) mod 2001"
proof (induction es arbitrary: s)
  case Nil
  then show ?case by simp
next
  case (Cons e es)
  show ?case
  proof (cases e)
    case (Tick l)
    have step: "unat (Pwm1_cn (Timer_A l s)) = Suc (unat (Pwm1_cn s)) mod 2001"
      using Cons.prems by (rule tick_cn_unat)
    then have "unat (Pwm1_cn (Timer_A l s)) \<le> 2000"
      using mod_less_divisor [of 2001 "Suc (unat (Pwm1_cn s))"] by simp
    from Cons.IH [OF this] step Tick show ?thesis
      by (simp add: mod_add_left_eq)
  next
    case (Loop b)
    with Cons show ?thesis by simp
  next
    case (Edge f l)
    with Cons show ?thesis by simp
  qed
qed

lemma ticks_in_replicate: "ticks_in (replicate n (Tick l)) = n"
  by (induction n) simp_all

text \<open>
  C3, as the code has it. In every execution from \<open>Init\<close>, whatever the order of loop
  passes and interrupts, \<open>Pwm1_cn\<close> is the number of timer interrupts so far modulo
  \<open>PWM1_MAXSTEP + 1\<close>: it stays in the closed interval from 0 to \<open>PWM1_MAXSTEP\<close>, takes
  the value \<open>PWM1_MAXSTEP\<close> itself, and the period is \<open>PWM1_MAXSTEP + 1\<close> ticks.
\<close>

theorem pwm_counter_period:
  "unat (Pwm1_cn (run es (Init s0))) = ticks_in es mod (unat PWM1_MAXSTEP + 1)
   \<and> Pwm1_cn (run es (Init s0)) \<le> PWM1_MAXSTEP"
proof -
  have eq: "unat (Pwm1_cn (run es (Init s0))) = ticks_in es mod 2001"
    using run_cn_unat [of "Init s0" es] by (simp add: Init_fields)
  then have "unat (Pwm1_cn (run es (Init s0))) \<le> 2000"
    by simp
  with eq show ?thesis
    by (simp add: PWM1_MAXSTEP_def word_le_nat_alt)
qed

text \<open>
  The half-open interval fails: after 2000 timer interrupts from \<open>Init\<close> the counter is
  \<open>PWM1_MAXSTEP\<close>, and it is back at 0 only after the 2001st.
\<close>

theorem pwm_counter_reaches_maxstep:
  "\<not> Pwm1_cn (run (replicate 2000 (Tick False)) (Init power_up)) < PWM1_MAXSTEP
   \<and> Pwm1_cn (run (replicate 2000 (Tick False)) (Init power_up)) = PWM1_MAXSTEP
   \<and> Pwm1_cn (run (replicate 2001 (Tick False)) (Init power_up)) = 0"
proof -
  have a: "unat (Pwm1_cn (run (replicate 2000 (Tick False)) (Init power_up))) = 2000"
    using run_cn_unat [of "Init power_up" "replicate 2000 (Tick False)"]
    by (simp add: Init_fields ticks_in_replicate)
  have b: "unat (Pwm1_cn (run (replicate 2001 (Tick False)) (Init power_up))) = 0"
    using run_cn_unat [of "Init power_up" "replicate 2001 (Tick False)"]
    by (simp add: Init_fields ticks_in_replicate)
  from a have "Pwm1_cn (run (replicate 2000 (Tick False)) (Init power_up)) = 2000"
    using word_unat_eq_iff [of "Pwm1_cn (run (replicate 2000 (Tick False)) (Init power_up))" 2000]
    by simp
  with b show ?thesis
    by (simp add: PWM1_MAXSTEP_def unat_eq_0)
qed

section \<open>The goal of a motion\<close>

lemma assign_goal_reach:
  "Pwm1_reach (assign_goal s) = spec_target POSIT_START POSIT_END (Pwm1_dc s)"
  by (auto simp: assign_goal_def spec_target_def)

lemma positioning_at_rest:
  assumes "\<not> moving s" and "button \<or> Command s = TRUE"
  shows "Pwm1_reach (positioning button s) = spec_target POSIT_START POSIT_END (Pwm1_dc s)"
    and "Pwm1_dc (positioning button s) = Pwm1_dc s"
    and "Pwm1_State (positioning button s) =
          (if Pwm1_reach (positioning button s) > Pwm1_dc s then MOVINGUP else MOVINGDOWN)"
    and "Command (positioning button s) = FALSE"
  using assms by (auto simp: positioning_def moving_def Let_def assign_goal_reach)

lemma moving_POSIT: "Pwm1_State s = POSIT \<Longrightarrow> \<not> moving s"
  by (simp add: moving_def pwm_states)

text \<open>
  C7. A pass of the foreground loop that starts in state \<open>POSIT\<close> with a trigger (the
  button, or \<open>Command\<close> equal to \<open>TRUE\<close> when the positioning \<open>switch\<close> is reached)
  assigns \<open>Pwm1_reach\<close> by the tie-break rule over \<open>POSIT_START\<close> and \<open>POSIT_END\<close>,
  leaves \<open>Pwm1_dc\<close> alone, and enters \<open>MOVINGUP\<close> if the target is above \<open>Pwm1_dc\<close>,
  else \<open>MOVINGDOWN\<close>.
\<close>

theorem goal_tie_break:
  "Pwm1_State s = POSIT \<Longrightarrow> button \<or> Command (confirm s) = TRUE \<Longrightarrow>
   Pwm1_reach (main_loop button s) = spec_target POSIT_START POSIT_END (Pwm1_dc s)
   \<and> Pwm1_dc (main_loop button s) = Pwm1_dc s
   \<and> Pwm1_State (main_loop button s) =
       (if Pwm1_reach (main_loop button s) > Pwm1_dc s then MOVINGUP else MOVINGDOWN)"
  using positioning_at_rest [of "confirm s" button]
  by (simp add: main_loop_def moving_def pwm_states)

theorem goal_tie_break_witness:
  "Pwm1_State (Init power_up) = POSIT \<and> Pwm1_dc (Init power_up) = POSIT_START
   \<and> Pwm1_reach (main_loop True (Init power_up)) = POSIT_END
   \<and> Pwm1_State (main_loop True (Init power_up)) = MOVINGDOWN"
  using goal_tie_break [of "Init power_up" True]
  by (simp add: Init_fields spec_target_def pwm_consts)

text \<open>
  The test program pwmtest2.c follows the same rule over its endpoints \<open>POSIT1\<close> and
  \<open>POSIT2\<close>, with the direction written into each branch.
\<close>

lemma pt2_goal_rule:
  "Pwm1_reach (pt2_goal s) = spec_target POSIT1 POSIT2 (Pwm1_dc s)
   \<and> Pwm1_State (pt2_goal s) =
       (if Pwm1_reach (pt2_goal s) > Pwm1_dc s then pt2_MOVINGUP else pt2_MOVINGDOWN)"
  by (auto simp: pt2_goal_def spec_target_def pt2_consts)

section \<open>The RF envelope qualifier: counter and flag\<close>

lemma rf_detect_counter:
  "RfDetState (rf_detect l s) \<noteq> RfDetState s \<Longrightarrow>
   (RfDetState (rf_detect l s) = DETLOW \<and> RfDetState s = DETHIGH \<and> RfDetCounter (rf_detect l s) = 0
      \<and> RfDetected (rf_detect l s) = RfDetected s)
   \<or> (RfDetState (rf_detect l s) = DETEND \<and> RfDetState s = DETLOW
      \<and> RfDetected (rf_detect l s) = TRUE \<and> RfDetCounter (rf_detect l s) = 0)
   \<or> (RfDetState (rf_detect l s) = DETEND \<and> (RfDetState s = DETHIGH \<or> RfDetState s = DETLOW)
      \<and> RfDetected (rf_detect l s) = FALSE \<and> RfDetCounter (rf_detect l s) = RfDetCounter s)
   \<or> (RfDetState (rf_detect l s) = IDLE \<and> RfDetState s = DETEND
      \<and> RfDetected (rf_detect l s) = RfDetected s \<and> RfDetCounter (rf_detect l s) = RfDetCounter s)"
  by (simp add: rf_detect_def Let_def det_states split: if_splits)

lemma rf_detect_same:
  "RfDetState (rf_detect l s) = RfDetState s \<Longrightarrow> RfDetected (rf_detect l s) = RfDetected s"
  by (simp add: rf_detect_def Let_def det_states split: if_splits)

lemma Port1_isr_det:
  "RfDetState (Port1_isr l s) \<noteq> RfDetState s \<Longrightarrow>
   RfDetState (Port1_isr l s) = DETHIGH \<and> RfDetCounter (Port1_isr l s) = 0"
  by (simp add: Port1_isr_def Let_def split: if_splits)

text \<open>
  C6, as the code has it. Whenever an event changes \<open>RfDetState\<close>: the counter
  \<open>RfDetCounter\<close> is 0 after a transition into \<open>DETHIGH\<close>, after \<open>DETHIGH\<close> to
  \<open>DETLOW\<close>, and after the successful transition \<open>DETLOW\<close> to \<open>DETEND\<close>
  (\<open>RfDetected = TRUE\<close>); it keeps its value on the failure transitions from \<open>DETHIGH\<close>
  and \<open>DETLOW\<close> into \<open>DETEND\<close> (\<open>RfDetected = FALSE\<close>) and on \<open>DETEND\<close> to
  \<open>IDLE\<close>. And \<open>RfDetected\<close> changes only on a transition out of \<open>DETHIGH\<close> or
  \<open>DETLOW\<close> into \<open>DETEND\<close>.
\<close>

theorem rf_counter_reset_and_detected:
  "(RfDetState (exec e s) \<noteq> RfDetState s \<longrightarrow>
      (RfDetState (exec e s) = DETHIGH \<and> RfDetCounter (exec e s) = 0)
    \<or> (RfDetState s = DETHIGH \<and> RfDetState (exec e s) = DETLOW \<and> RfDetCounter (exec e s) = 0)
    \<or> (RfDetState s = DETLOW \<and> RfDetState (exec e s) = DETEND
         \<and> RfDetected (exec e s) = TRUE \<and> RfDetCounter (exec e s) = 0)
    \<or> ((RfDetState s = DETHIGH \<or> RfDetState s = DETLOW) \<and> RfDetState (exec e s) = DETEND
         \<and> RfDetected (exec e s) = FALSE \<and> RfDetCounter (exec e s) = RfDetCounter s)
    \<or> (RfDetState s = DETEND \<and> RfDetState (exec e s) = IDLE
         \<and> RfDetCounter (exec e s) = RfDetCounter s))
   \<and> (RfDetected (exec e s) \<noteq> RfDetected s \<longrightarrow>
      (RfDetState s = DETHIGH \<or> RfDetState s = DETLOW) \<and> RfDetState (exec e s) = DETEND)"
proof (cases e)
  case (Loop b)
  then show ?thesis by simp
next
  case (Edge f l)
  then show ?thesis
    using Port1_isr_det [of l "s\<lparr>P1IFG := f\<rparr>"] by auto
next
  case (Tick l)
  show ?thesis
  proof (cases "Pwm1_State s = POSIT")
    case False
    with Tick show ?thesis by (simp add: Timer_A_det)
  next
    case True
    with Tick have eq: "RfDetState (exec e s) = RfDetState (rf_detect l s)"
      "RfDetCounter (exec e s) = RfDetCounter (rf_detect l s)"
      "RfDetected (exec e s) = RfDetected (rf_detect l s)"
      by (simp_all add: Timer_A_det)
    show ?thesis
      unfolding eq
      using rf_detect_counter [of l s] rf_detect_same [of l s] by blast
  qed
qed

theorem rf_counter_reset_and_detected_witness:
  "RfDetState (exec (Tick False) (Init power_up\<lparr>RfDetState := DETHIGH, RfDetCounter := 2, RfDetected := TRUE\<rparr>))
     \<noteq> RfDetState (Init power_up\<lparr>RfDetState := DETHIGH, RfDetCounter := 2, RfDetected := TRUE\<rparr>)
   \<and> RfDetected (exec (Tick False) (Init power_up\<lparr>RfDetState := DETHIGH, RfDetCounter := 2, RfDetected := TRUE\<rparr>))
     \<noteq> RfDetected (Init power_up\<lparr>RfDetState := DETHIGH, RfDetCounter := 2, RfDetected := TRUE\<rparr>)
   \<and> RfDetState (exec (Tick False) (Init power_up\<lparr>RfDetState := DETHIGH, RfDetCounter := 2, RfDetected := TRUE\<rparr>)) = DETEND
   \<and> RfDetCounter (exec (Tick False) (Init power_up\<lparr>RfDetState := DETHIGH, RfDetCounter := 2, RfDetected := TRUE\<rparr>)) = 2"
  using rf_counter_reset_and_detected [of "Tick False"
     "Init power_up\<lparr>RfDetState := DETHIGH, RfDetCounter := 2, RfDetected := TRUE\<rparr>"]
  by (simp add: Timer_A_det Init_fields rf_detect_def Let_def det_states bool_consts rf_consts pwm_states)

text \<open>
  The counter is not reset on every transition: after a rising edge, two HIGH reads and a
  LOW read the qualifier is in \<open>DETEND\<close> with the counter still 2, and the next HIGH read
  takes it to \<open>IDLE\<close> with the counter still 2.
\<close>

theorem rf_counter_kept_on_failure:
  "RfDetState (run [Edge BIT6 True, Tick True, Tick True] (Init power_up)) = DETHIGH
   \<and> RfDetState (run [Edge BIT6 True, Tick True, Tick True, Tick False] (Init power_up)) = DETEND
   \<and> RfDetCounter (run [Edge BIT6 True, Tick True, Tick True, Tick False] (Init power_up)) = 2
   \<and> RfDetState (run [Edge BIT6 True, Tick True, Tick True, Tick False, Tick True] (Init power_up)) = IDLE
   \<and> RfDetCounter (run [Edge BIT6 True, Tick True, Tick True, Tick False, Tick True] (Init power_up)) = 2"
  by (simp add: Timer_A_det Init_fields rf_detect_def Port1_isr_def Let_def det_states bool_consts
        rf_consts pwm_states bit_consts power_up_def Init_def)

section \<open>The positioning state machine\<close>

lemma step_up:
  "(dc::'a::len word) \<noteq> reach \<Longrightarrow> dc \<le> reach \<Longrightarrow>
   dc + 1 \<le> reach \<and> dc \<le> dc + 1 \<and> unat (dc + 1) = Suc (unat dc)"
  by unat_arith

lemma step_down:
  "(dc::'a::len word) \<noteq> reach \<Longrightarrow> reach \<le> dc \<Longrightarrow>
   reach \<le> dc - 1 \<and> dc - 1 \<le> dc \<and> Suc (unat (dc - 1)) = unat dc"
  by unat_arith

subsection \<open>The positioning switch, case by case\<close>

lemma positioning_MOVINGUP:
  "Pwm1_State s = MOVINGUP \<Longrightarrow> positioning b s =
    (if Pwm1_dc s = Pwm1_reach s then s\<lparr>Command := FALSE, Pwm1_State := POSIT\<rparr>
     else s\<lparr>Pwm1_State := WAITINGUP, Pwm1_delay := SPEED, Pwm1_dc := Pwm1_dc s + 1\<rparr>)"
  by (simp add: positioning_def)

lemma positioning_MOVINGDOWN:
  "Pwm1_State s = MOVINGDOWN \<Longrightarrow> positioning b s =
    (if Pwm1_dc s = Pwm1_reach s then s\<lparr>Command := FALSE, Pwm1_State := POSIT\<rparr>
     else s\<lparr>Pwm1_State := WAITINGDOWN, Pwm1_delay := SPEED, Pwm1_dc := Pwm1_dc s - 1\<rparr>)"
  by (simp add: positioning_def pwm_states)

lemma positioning_WAITINGUP:
  "Pwm1_State s = WAITINGUP \<Longrightarrow> positioning b s =
    (if Pwm1_delay s = 0 then s\<lparr>Pwm1_State := MOVINGUP\<rparr> else s)"
  by (simp add: positioning_def pwm_states)

lemma positioning_WAITINGDOWN:
  "Pwm1_State s = WAITINGDOWN \<Longrightarrow> positioning b s =
    (if Pwm1_delay s = 0 then s\<lparr>Pwm1_State := MOVINGDOWN\<rparr> else s)"
  by (simp add: positioning_def pwm_states)

lemma positioning_rest:
  "\<not> moving s \<Longrightarrow> positioning b s =
    (if b \<or> Command s = TRUE then
       (let g = assign_goal (s\<lparr>Command := FALSE\<rparr>)
        in if Pwm1_reach g > Pwm1_dc g then g\<lparr>Pwm1_State := MOVINGUP\<rparr>
           else g\<lparr>Pwm1_State := MOVINGDOWN\<rparr>)
     else s)"
  by (simp add: positioning_def moving_def)

lemma moving_cases:
  obtains (up) "Pwm1_State s = MOVINGUP" | (down) "Pwm1_State s = MOVINGDOWN"
  | (wup) "Pwm1_State s = WAITINGUP" | (wdown) "Pwm1_State s = WAITINGDOWN"
  | (rest) "\<not> moving s"
  unfolding moving_def by blast

lemma assign_goal_Command_reach:
  "Pwm1_reach (assign_goal (s\<lparr>Command := c\<rparr>)) = spec_target POSIT_START POSIT_END (Pwm1_dc s)"
  by (simp add: assign_goal_reach)

lemma spec_target_endpoints:
  "spec_target POSIT_START POSIT_END dc = POSIT_START \<or> spec_target POSIT_START POSIT_END dc = POSIT_END"
  by (simp add: spec_target_def)

subsection \<open>Invariants of the positioning machine\<close>

lemma dir_ok_positioning:
  assumes "dir_ok s"
  shows "dir_ok (positioning b s)"
proof (cases s rule: moving_cases)
  case up
  with assms show ?thesis
    using step_up [of "Pwm1_dc s" "Pwm1_reach s"]
    by (auto simp: positioning_MOVINGUP dir_ok_def pwm_states)
next
  case down
  with assms show ?thesis
    using step_down [of "Pwm1_dc s" "Pwm1_reach s"]
    by (auto simp: positioning_MOVINGDOWN dir_ok_def pwm_states)
next
  case wup
  with assms show ?thesis
    by (auto simp: positioning_WAITINGUP dir_ok_def pwm_states)
next
  case wdown
  with assms show ?thesis
    by (auto simp: positioning_WAITINGDOWN dir_ok_def pwm_states)
next
  case rest
  then show ?thesis
    by (auto simp: positioning_rest dir_ok_def Let_def pwm_states moving_def)
qed

lemma dir_ok_cong:
  "Pwm1_State t = Pwm1_State s \<Longrightarrow> Pwm1_dc t = Pwm1_dc s \<Longrightarrow> Pwm1_reach t = Pwm1_reach s \<Longrightarrow>
   dir_ok t = dir_ok s"
  by (simp add: dir_ok_def)

lemma dir_ok_exec: "dir_ok s \<Longrightarrow> dir_ok (exec e s)"
proof (cases e)
  case (Loop b)
  assume "dir_ok s"
  then have "dir_ok (confirm s)" by (simp add: dir_ok_cong [of "confirm s" s])
  then show ?thesis using Loop by (simp add: main_loop_def dir_ok_positioning)
next
  case (Tick l)
  assume "dir_ok s"
  then show ?thesis using Tick by (simp add: dir_ok_cong [of "Timer_A l s" s])
next
  case (Edge f l)
  assume "dir_ok s"
  then show ?thesis using Edge
    by (simp add: dir_ok_cong [of "Port1_isr l (s\<lparr>P1IFG := f\<rparr>)" s])
qed

lemma pos_inv_positioning: "pos_inv s \<Longrightarrow> pos_inv (positioning b s)"
proof -
  assume inv: "pos_inv s"
  then have d: "dir_ok (positioning b s)" by (simp add: pos_inv_def dir_ok_positioning)
  have "POSIT_END \<le> Pwm1_dc (positioning b s) \<and> Pwm1_dc (positioning b s) \<le> POSIT_START
    \<and> (Pwm1_reach (positioning b s) = POSIT_START \<or> Pwm1_reach (positioning b s) = POSIT_END)"
  proof (cases s rule: moving_cases)
    case up
    with inv have "Pwm1_dc s \<le> Pwm1_reach s" "Pwm1_reach s \<le> POSIT_START"
      by (auto simp: pos_inv_def dir_ok_def pwm_consts)
    with up inv show ?thesis
      using step_up [of "Pwm1_dc s" "Pwm1_reach s"]
      by (auto simp: positioning_MOVINGUP pos_inv_def)
  next
    case down
    with inv have "Pwm1_reach s \<le> Pwm1_dc s" "POSIT_END \<le> Pwm1_reach s"
      by (auto simp: pos_inv_def dir_ok_def pwm_consts)
    with down inv show ?thesis
      using step_down [of "Pwm1_dc s" "Pwm1_reach s"]
      by (auto simp: positioning_MOVINGDOWN pos_inv_def)
  next
    case wup
    with inv show ?thesis by (auto simp: positioning_WAITINGUP pos_inv_def)
  next
    case wdown
    with inv show ?thesis by (auto simp: positioning_WAITINGDOWN pos_inv_def)
  next
    case rest
    with inv show ?thesis
      using spec_target_endpoints [of "Pwm1_dc s"]
      by (auto simp: positioning_rest pos_inv_def Let_def assign_goal_Command_reach)
  qed
  with d show ?thesis by (simp add: pos_inv_def)
qed

lemma pos_inv_cong:
  "Pwm1_State t = Pwm1_State s \<Longrightarrow> Pwm1_dc t = Pwm1_dc s \<Longrightarrow> Pwm1_reach t = Pwm1_reach s \<Longrightarrow>
   pos_inv t = pos_inv s"
  by (simp add: pos_inv_def dir_ok_def)

lemma pos_inv_exec: "pos_inv s \<Longrightarrow> pos_inv (exec e s)"
proof (cases e)
  case (Loop b)
  assume "pos_inv s"
  then have "pos_inv (confirm s)" by (simp add: pos_inv_cong [of "confirm s" s])
  then show ?thesis using Loop by (simp add: main_loop_def pos_inv_positioning)
next
  case (Tick l)
  assume "pos_inv s"
  then show ?thesis using Tick by (simp add: pos_inv_cong [of "Timer_A l s" s])
next
  case (Edge f l)
  assume "pos_inv s"
  then show ?thesis using Edge
    by (simp add: pos_inv_cong [of "Port1_isr l (s\<lparr>P1IFG := f\<rparr>)" s])
qed

lemma pos_inv_run: "pos_inv s \<Longrightarrow> pos_inv (run es s)"
  by (induction es arbitrary: s) (simp_all add: pos_inv_exec)

lemma pos_inv_Init: "pos_inv (Init s0)"
  by (simp add: pos_inv_def dir_ok_def Init_fields pwm_consts pwm_states)

text \<open>
  C10. In every state reachable from \<open>Init\<close>, by loop passes, timer interrupts and port
  interrupts in any order and with any inputs, \<open>Pwm1_dc\<close> lies between \<open>POSIT_END\<close>
  (78) and \<open>POSIT_START\<close> (161), and \<open>Pwm1_reach\<close> is one of the two endpoints. The
  pulse is HIGH for \<open>Pwm1_dc\<close> ticks of each period, so its width stays between 78 and
  161 ticks.
\<close>

theorem duty_cycle_band:
  "POSIT_END \<le> Pwm1_dc (run es (Init s0)) \<and> Pwm1_dc (run es (Init s0)) \<le> POSIT_START
   \<and> (Pwm1_reach (run es (Init s0)) = POSIT_START \<or> Pwm1_reach (run es (Init s0)) = POSIT_END)"
  using pos_inv_run [OF pos_inv_Init, of es s0] by (simp add: pos_inv_def)

lemma exec_dc_step:
  assumes "dir_ok s"
  shows "Pwm1_dc (exec e s) = Pwm1_dc s
    \<or> (Pwm1_dc s < Pwm1_reach s \<and> Pwm1_dc (exec e s) = Pwm1_dc s + 1
         \<and> unat (Pwm1_dc (exec e s)) = Suc (unat (Pwm1_dc s)))
    \<or> (Pwm1_reach s < Pwm1_dc s \<and> Pwm1_dc (exec e s) = Pwm1_dc s - 1
         \<and> Suc (unat (Pwm1_dc (exec e s))) = unat (Pwm1_dc s))"
proof (cases e)
  case (Tick l)
  then show ?thesis by simp
next
  case (Edge f l)
  then show ?thesis by simp
next
  case (Loop b)
  let ?c = "confirm s"
  have d: "dir_ok ?c" using assms by (simp add: dir_ok_cong [of "confirm s" s])
  have "Pwm1_dc (positioning b ?c) = Pwm1_dc ?c
    \<or> (Pwm1_dc ?c < Pwm1_reach ?c \<and> Pwm1_dc (positioning b ?c) = Pwm1_dc ?c + 1
         \<and> unat (Pwm1_dc (positioning b ?c)) = Suc (unat (Pwm1_dc ?c)))
    \<or> (Pwm1_reach ?c < Pwm1_dc ?c \<and> Pwm1_dc (positioning b ?c) = Pwm1_dc ?c - 1
         \<and> Suc (unat (Pwm1_dc (positioning b ?c))) = unat (Pwm1_dc ?c))"
  proof (cases ?c rule: moving_cases)
    case up
    with d show ?thesis
      using step_up [of "Pwm1_dc ?c" "Pwm1_reach ?c"]
      by (auto simp: positioning_MOVINGUP dir_ok_def)
  next
    case down
    with d show ?thesis
      using step_down [of "Pwm1_dc ?c" "Pwm1_reach ?c"]
      by (auto simp: positioning_MOVINGDOWN dir_ok_def)
  next
    case wup
    then show ?thesis by (simp add: positioning_WAITINGUP)
  next
    case wdown
    then show ?thesis by (simp add: positioning_WAITINGDOWN)
  next
    case rest
    then show ?thesis by (simp add: positioning_rest Let_def)
  qed
  with Loop show ?thesis by (simp add: main_loop_def)
qed

subsection \<open>The test program pwmtest2.c\<close>

lemma pt2_mode_inv: "pt2_inv s \<Longrightarrow> pt2_inv (pt2_mode b s)"
  by (auto simp: pt2_inv_def pt2_mode_def pt2_states)

lemma pt2_goal_inv: "Pwm1_dc s \<le> PWM1_MAXSTEP \<Longrightarrow> pt2_inv (pt2_goal s)"
  by (auto simp: pt2_inv_def pt2_goal_def pt2_states pt2_consts pwm_consts)

lemma pt2_act_inv:
  assumes "pt2_inv s"
  shows "pt2_inv (pt2_act b s)"
proof -
  consider (up) "Pwm1_State s = pt2_MOVINGUP" | (down) "Pwm1_State s = pt2_MOVINGDOWN"
    | (wup) "Pwm1_State s = pt2_WAITINGUP" | (wdown) "Pwm1_State s = pt2_WAITINGDOWN"
    | (posit) "Pwm1_State s = pt2_POSIT" | (old) "Pwm1_State s = pt2_POSITOLD"
    | (inc) "Pwm1_State s = pt2_INCREASE" | (dec) "Pwm1_State s = pt2_DECREASE"
    | (reset) "Pwm1_State s \<noteq> pt2_MOVINGUP" "Pwm1_State s \<noteq> pt2_MOVINGDOWN"
        "Pwm1_State s \<noteq> pt2_WAITINGUP" "Pwm1_State s \<noteq> pt2_WAITINGDOWN"
        "Pwm1_State s \<noteq> pt2_POSIT" "Pwm1_State s \<noteq> pt2_POSITOLD"
        "Pwm1_State s \<noteq> pt2_INCREASE" "Pwm1_State s \<noteq> pt2_DECREASE"
    by blast
  then show ?thesis
  proof cases
    case up
    with assms have le: "Pwm1_dc s \<le> Pwm1_reach s" "Pwm1_reach s \<le> PWM1_MAXSTEP"
      by (simp_all add: pt2_inv_def)
    from up have eq: "pt2_act b s =
      (if Pwm1_dc s = Pwm1_reach s then s\<lparr>Pwm1_State := pt2_POSIT\<rparr>
       else s\<lparr>Pwm1_State := pt2_WAITINGUP, Pwm1_delay := SPEED, Pwm1_dc := Pwm1_dc s + 1\<rparr>)"
      by (simp add: pt2_act_def pt2_states)
    show ?thesis
      unfolding eq using le assms step_up [of "Pwm1_dc s" "Pwm1_reach s"]
      by (auto simp: pt2_inv_def pt2_states)
  next
    case down
    with assms have le: "Pwm1_reach s \<le> Pwm1_dc s" "Pwm1_dc s \<le> PWM1_MAXSTEP"
      by (simp_all add: pt2_inv_def)
    from down have eq: "pt2_act b s =
      (if Pwm1_dc s = Pwm1_reach s then s\<lparr>Pwm1_State := pt2_POSIT\<rparr>
       else s\<lparr>Pwm1_State := pt2_WAITINGDOWN, Pwm1_delay := SPEED, Pwm1_dc := Pwm1_dc s - 1\<rparr>)"
      by (simp add: pt2_act_def pt2_states)
    show ?thesis
      unfolding eq using le assms step_down [of "Pwm1_dc s" "Pwm1_reach s"]
      by (auto simp: pt2_inv_def pt2_states)
  next
    case wup
    with assms show ?thesis by (auto simp: pt2_act_def pt2_inv_def pt2_states)
  next
    case wdown
    with assms show ?thesis by (auto simp: pt2_act_def pt2_inv_def pt2_states)
  next
    case posit
    then have "pt2_act b s = (if b then pt2_goal s else s)"
      by (simp add: pt2_act_def pt2_states)
    moreover from assms have "Pwm1_dc s \<le> PWM1_MAXSTEP" by (simp add: pt2_inv_def)
    ultimately show ?thesis using assms by (simp add: pt2_goal_inv)
  next
    case old
    with assms show ?thesis
      by (auto simp: pt2_act_def pt2_inv_def pt2_states pt2_consts pwm_consts)
  next
    case inc
    then have eq: "pt2_act b s =
      (if b then (if Pwm1_dc s < PWM1_MAXSTEP then s\<lparr>Pwm1_dc := Pwm1_dc s + 1\<rparr> else s) else s)"
      by (simp add: pt2_act_def pt2_states)
    show ?thesis
      unfolding eq using assms inc inc_le [of "Pwm1_dc s" PWM1_MAXSTEP]
      by (auto simp: pt2_inv_def pt2_states)
  next
    case dec
    then have eq: "pt2_act b s =
      (if b then (if Pwm1_dc s > 0 then s\<lparr>Pwm1_dc := Pwm1_dc s - 1\<rparr> else s) else s)"
      by (simp add: pt2_act_def pt2_states)
    have "Pwm1_dc s \<noteq> 0 \<Longrightarrow> Pwm1_dc s - 1 \<le> Pwm1_dc s"
      using step_down [of "Pwm1_dc s" 0] by simp
    then show ?thesis
      unfolding eq using assms dec
      by (auto simp: pt2_inv_def pt2_states word_gt_0)
  next
    case reset
    then have "pt2_act b s = (if b then s\<lparr>Pwm1_dc := pt2_PWMINITIALVALUE\<rparr> else s)"
      by (simp add: pt2_act_def)
    with assms reset show ?thesis
      by (auto simp: pt2_inv_def pt2_consts pwm_consts)
  qed
qed

lemma pt2_inv_cong:
  "Pwm1_State t = Pwm1_State s \<Longrightarrow> Pwm1_dc t = Pwm1_dc s \<Longrightarrow> Pwm1_reach t = Pwm1_reach s \<Longrightarrow>
   pt2_inv t = pt2_inv s"
  by (simp add: pt2_inv_def)

lemma pt2_exec_inv: "pt2_inv s \<Longrightarrow> pt2_inv (pt2_exec e s)"
proof (cases e)
  case (PLoop b1 b2)
  assume "pt2_inv s"
  then have "pt2_inv (pt2_act b2 (pt2_mode b1 s))"
    by (simp add: pt2_act_inv pt2_mode_inv)
  moreover have "pt2_inv (pt2_debug t) = pt2_inv t" for t
    by (rule pt2_inv_cong) (simp_all add: pt2_debug_def)
  ultimately show ?thesis using PLoop by (simp add: pt2_main_loop_def)
next
  case PTick
  assume "pt2_inv s"
  moreover have "pt2_inv (pt2_Timer_A s) = pt2_inv s"
    by (rule pt2_inv_cong) (simp_all add: pt2_Timer_A_def)
  ultimately show ?thesis using PTick by simp
qed

lemma pt2_run_inv: "pt2_inv s \<Longrightarrow> pt2_inv (pt2_run es s)"
  by (induction es arbitrary: s) (simp_all add: pt2_exec_inv)

lemma pt2_Init_inv: "pt2_inv (pt2_Init s0)"
  by (simp add: pt2_inv_def pt2_Init_def pt2_states pt2_consts pwm_consts)

lemma pt2_clamp:
  "Pwm1_dc (pt2_act b (s\<lparr>Pwm1_State := pt2_INCREASE, Pwm1_dc := PWM1_MAXSTEP\<rparr>)) = PWM1_MAXSTEP"
  "Pwm1_dc (pt2_act b (s\<lparr>Pwm1_State := pt2_DECREASE, Pwm1_dc := 0\<rparr>)) = 0"
  by (simp_all add: pt2_act_def pt2_states)

text \<open>
  C8. In rf\_motor.c, in every state reachable from \<open>Init\<close>, \<open>Pwm1_dc\<close> is at most
  \<open>PWM1_MAXSTEP\<close>, and every event leaves it alone or moves it by exactly one unit as a
  number (no wrap-around past 0 or 65535), to a value that is again at most
  \<open>PWM1_MAXSTEP\<close>. In pwmtest2.c, \<open>Pwm1_dc\<close> is at most \<open>PWM1_MAXSTEP\<close> in every
  state reachable from its \<open>Init\<close>; there the \<open>INCREASE\<close> case leaves a duty cycle of
  \<open>PWM1_MAXSTEP\<close> where it is and the \<open>DECREASE\<close> case leaves a duty cycle of 0 where
  it is.
\<close>

theorem duty_cycle_never_wraps:
  "Pwm1_dc (run es (Init s0)) \<le> PWM1_MAXSTEP
   \<and> (unat (Pwm1_dc (exec e (run es (Init s0)))) = unat (Pwm1_dc (run es (Init s0)))
      \<or> unat (Pwm1_dc (exec e (run es (Init s0)))) = Suc (unat (Pwm1_dc (run es (Init s0))))
      \<or> Suc (unat (Pwm1_dc (exec e (run es (Init s0))))) = unat (Pwm1_dc (run es (Init s0))))
   \<and> Pwm1_dc (exec e (run es (Init s0))) \<le> PWM1_MAXSTEP
   \<and> Pwm1_dc (pt2_run ps (pt2_Init p0)) \<le> PWM1_MAXSTEP
   \<and> Pwm1_dc (pt2_act b (p\<lparr>Pwm1_State := pt2_INCREASE, Pwm1_dc := PWM1_MAXSTEP\<rparr>)) = PWM1_MAXSTEP
   \<and> Pwm1_dc (pt2_act b (p\<lparr>Pwm1_State := pt2_DECREASE, Pwm1_dc := 0\<rparr>)) = 0"
proof -
  let ?s = "run es (Init s0)"
  have inv: "pos_inv ?s" by (rule pos_inv_run [OF pos_inv_Init])
  then have "Pwm1_dc ?s \<le> POSIT_START" by (simp add: pos_inv_def)
  then have a: "Pwm1_dc ?s \<le> PWM1_MAXSTEP" by (simp add: pwm_consts word_le_nat_alt)
  from inv have "pos_inv (exec e ?s)" by (rule pos_inv_exec)
  then have "Pwm1_dc (exec e ?s) \<le> POSIT_START" by (simp add: pos_inv_def)
  then have b: "Pwm1_dc (exec e ?s) \<le> PWM1_MAXSTEP" by (simp add: pwm_consts word_le_nat_alt)
  from inv have "dir_ok ?s" by (simp add: pos_inv_def)
  from exec_dc_step [OF this, of e]
  have c: "unat (Pwm1_dc (exec e ?s)) = unat (Pwm1_dc ?s)
      \<or> unat (Pwm1_dc (exec e ?s)) = Suc (unat (Pwm1_dc ?s))
      \<or> Suc (unat (Pwm1_dc (exec e ?s))) = unat (Pwm1_dc ?s)"
    by auto
  have d: "Pwm1_dc (pt2_run ps (pt2_Init p0)) \<le> PWM1_MAXSTEP"
    using pt2_run_inv [OF pt2_Init_inv, of ps p0] by (simp add: pt2_inv_def)
  from a b c d show ?thesis by (simp add: pt2_clamp)
qed

subsection \<open>A trigger during a motion\<close>

lemma moving_Command [simp]: "moving (s\<lparr>Command := c\<rparr>) = moving s"
  by (simp add: moving_def)

lemma confirm_Command:
  "(confirm (s\<lparr>Command := c\<rparr>))\<lparr>Command := x\<rparr> = (confirm s)\<lparr>Command := x\<rparr>"
  by (simp add: confirm_def)

lemma but_Command:
  assumes "u\<lparr>Command := x\<rparr> = v\<lparr>Command := x\<rparr>"
  shows "u = v\<lparr>Command := Command u\<rparr>"
proof -
  have "u = (u\<lparr>Command := x\<rparr>)\<lparr>Command := Command u\<rparr>" by simp
  also have "\<dots> = (v\<lparr>Command := x\<rparr>)\<lparr>Command := Command u\<rparr>" by (simp only: assms)
  finally show ?thesis by simp
qed

lemma positioning_Command:
  assumes "moving s"
  shows "positioning b (s\<lparr>Command := c\<rparr>) =
    (if moving (positioning b' s) then (positioning b' s)\<lparr>Command := c\<rparr> else positioning b' s)"
proof (cases s rule: moving_cases)
  case up
  then show ?thesis
    by (simp add: positioning_MOVINGUP moving_def pwm_states)
next
  case down
  then show ?thesis
    by (simp add: positioning_MOVINGDOWN moving_def pwm_states)
next
  case wup
  then show ?thesis
    by (simp add: positioning_WAITINGUP moving_def pwm_states)
next
  case wdown
  then show ?thesis
    by (simp add: positioning_WAITINGDOWN moving_def pwm_states)
next
  case rest
  with assms show ?thesis by simp
qed

lemma rf_detect_Command:
  "rf_detect l (s\<lparr>Command := c\<rparr>) = (rf_detect l s)\<lparr>Command := c\<rparr>"
  by (simp add: rf_detect_def Let_def)

lemma delay_management_Command:
  "delay_management (s\<lparr>Command := c\<rparr>) = (delay_management s)\<lparr>Command := c\<rparr>"
  by (simp add: delay_management_def Let_def)

lemma pwm1_management_Command:
  "pwm1_management (s\<lparr>Command := c\<rparr>) = (pwm1_management s)\<lparr>Command := c\<rparr>"
  by (simp add: pwm1_management_def Let_def)

lemma Timer_A_Command:
  "Timer_A l (s\<lparr>Command := c\<rparr>) = (Timer_A l s)\<lparr>Command := c\<rparr>"
  by (simp add: Timer_A_def rf_detect_Command delay_management_Command pwm1_management_Command)

lemma Port1_isr_Command:
  "Port1_isr l (s\<lparr>Command := c, P1IFG := f\<rparr>) = (Port1_isr l (s\<lparr>P1IFG := f\<rparr>))\<lparr>Command := c\<rparr>"
  by (simp add: Port1_isr_def Let_def)

lemma moving_confirm [simp]: "moving (confirm s) = moving s"
  by (simp add: moving_def)

lemma exec_Command:
  assumes "moving s"
  shows "\<exists>c'. exec e (s\<lparr>Command := c\<rparr>) =
     (if moving (exec (untriggered e) s) then (exec (untriggered e) s)\<lparr>Command := c'\<rparr>
      else exec (untriggered e) s)"
proof (cases e)
  case (Tick l)
  with assms show ?thesis
    by (auto simp: Timer_A_Command moving_def)
next
  case (Edge f l)
  with assms show ?thesis
    by (auto simp: Port1_isr_Command moving_def)
next
  case (Loop b)
  have "confirm (s\<lparr>Command := c\<rparr>) = (confirm s)\<lparr>Command := Command (confirm (s\<lparr>Command := c\<rparr>))\<rparr>"
    by (rule but_Command [OF confirm_Command])
  then obtain c1 where c1: "confirm (s\<lparr>Command := c\<rparr>) = (confirm s)\<lparr>Command := c1\<rparr>" ..
  from assms have "moving (confirm s)" by simp
  from positioning_Command [OF this, of b c1 False] Loop c1
  show ?thesis by (auto simp: main_loop_def)
qed

lemma travel_Command:
  "moving s \<Longrightarrow> \<exists>c'. travel es (s\<lparr>Command := c\<rparr>) =
     (case travel (map untriggered es) s of
        (t, k) \<Rightarrow> (if moving t then t\<lparr>Command := c'\<rparr> else t, k))"
proof (induction es arbitrary: s c)
  case Nil
  then show ?case by auto
next
  case (Cons e es)
  let ?u = "exec (untriggered e) s"
  from exec_Command [OF Cons.prems, of e c]
  obtain c1 where c1: "exec e (s\<lparr>Command := c\<rparr>) = (if moving ?u then ?u\<lparr>Command := c1\<rparr> else ?u)" ..
  show ?case
  proof (cases "moving ?u")
    case True
    from Cons.IH [OF True, of c1] obtain c2 where
      "travel es (?u\<lparr>Command := c1\<rparr>) =
        (case travel (map untriggered es) ?u of (t, k) \<Rightarrow> (if moving t then t\<lparr>Command := c2\<rparr> else t, k))" ..
    with True c1 Cons.prems show ?thesis
      by (auto split: prod.splits)
  next
    case False
    then have "travel es ?u = (?u, 0)" "travel (map untriggered es) ?u = (?u, 0)"
      by (cases es; simp)+
    with False c1 Cons.prems show ?thesis
      by (auto split: prod.splits)
  qed
qed

lemma exec_reach_moving: "moving s \<Longrightarrow> Pwm1_reach (exec e s) = Pwm1_reach s"
proof (cases e)
  case (Loop b)
  assume "moving s"
  then have m: "moving (confirm s)" by simp
  have "Pwm1_reach (positioning b (confirm s)) = Pwm1_reach (confirm s)"
    using m by (cases "confirm s" rule: moving_cases)
      (simp_all add: positioning_MOVINGUP positioning_MOVINGDOWN positioning_WAITINGUP
         positioning_WAITINGDOWN)
  with Loop show ?thesis by (simp add: main_loop_def)
qed simp_all

text \<open>
  C9. Let the arm be moving in state \<open>s\<close>. Take any execution \<open>es\<close>, with button
  presses in any of its loop passes and with \<open>Command\<close> set to any value \<open>c\<close> at its
  start, and the same execution without button presses from \<open>s\<close> as it is. Up to the
  first return to rest (or to the end of \<open>es\<close>) both make the same number of steps of
  \<open>Pwm1_dc\<close> and end in states that agree on every variable except possibly
  \<open>Command\<close>; when the arm has come to rest the two states are equal. And no event
  changes \<open>Pwm1_reach\<close> while the arm moves.
\<close>

theorem trigger_while_moving:
  "moving s \<Longrightarrow>
   snd (travel es (s\<lparr>Command := c\<rparr>)) = snd (travel (map untriggered es) s)
   \<and> (fst (travel es (s\<lparr>Command := c\<rparr>)))\<lparr>Command := 0\<rparr>
       = (fst (travel (map untriggered es) s))\<lparr>Command := 0\<rparr>
   \<and> (\<not> moving (fst (travel (map untriggered es) s)) \<longrightarrow>
        fst (travel es (s\<lparr>Command := c\<rparr>)) = fst (travel (map untriggered es) s))
   \<and> Pwm1_reach (exec e (s\<lparr>Command := c\<rparr>)) = Pwm1_reach s"
proof -
  assume m: "moving s"
  from travel_Command [OF m, of es c] obtain c' where
    "travel es (s\<lparr>Command := c\<rparr>) =
      (case travel (map untriggered es) s of (t, k) \<Rightarrow> (if moving t then t\<lparr>Command := c'\<rparr> else t, k))" ..
  moreover have "Pwm1_reach (exec e (s\<lparr>Command := c\<rparr>)) = Pwm1_reach s"
    using exec_reach_moving [of "s\<lparr>Command := c\<rparr>" e] m by simp
  ultimately show ?thesis by (auto split: prod.splits)
qed

theorem trigger_while_moving_witness:
  "moving (Init power_up\<lparr>Pwm1_State := WAITINGDOWN, Pwm1_delay := 1, Pwm1_dc := 78, Pwm1_reach := 78\<rparr>)
   \<and> \<not> moving (fst (travel (map untriggered [Loop True, Tick False, Loop True, Loop True])
        (Init power_up\<lparr>Pwm1_State := WAITINGDOWN, Pwm1_delay := 1, Pwm1_dc := 78, Pwm1_reach := 78\<rparr>)))
   \<and> fst (travel [Loop True, Tick False, Loop True, Loop True]
        (Init power_up\<lparr>Pwm1_State := WAITINGDOWN, Pwm1_delay := 1, Pwm1_dc := 78, Pwm1_reach := 78,
           Command := TRUE\<rparr>))
     = fst (travel (map untriggered [Loop True, Tick False, Loop True, Loop True])
        (Init power_up\<lparr>Pwm1_State := WAITINGDOWN, Pwm1_delay := 1, Pwm1_dc := 78, Pwm1_reach := 78\<rparr>))
   \<and> Pwm1_dc (fst (travel [Loop True, Tick False, Loop True, Loop True]
        (Init power_up\<lparr>Pwm1_State := WAITINGDOWN, Pwm1_delay := 1, Pwm1_dc := 78, Pwm1_reach := 78,
           Command := TRUE\<rparr>))) = 78"
  using trigger_while_moving [of
    "Init power_up\<lparr>Pwm1_State := WAITINGDOWN, Pwm1_delay := 1, Pwm1_dc := 78, Pwm1_reach := 78\<rparr>"
    "[Loop True, Tick False, Loop True, Loop True]" TRUE "Loop True"]
  by (simp add: run_defs)

subsection \<open>Progress of a motion\<close>

lemma dist_same [simp]: "dist a a = 0"
  by (simp add: dist_def)

lemma dist_up:
  "(dc::ushort) \<noteq> reach \<Longrightarrow> dc \<le> reach \<Longrightarrow> Suc (dist (dc + 1) reach) = dist dc reach"
  using step_up [of dc reach] by (auto simp: dist_def word_le_nat_alt)

lemma dist_down:
  "(dc::ushort) \<noteq> reach \<Longrightarrow> reach \<le> dc \<Longrightarrow> Suc (dist (dc - 1) reach) = dist dc reach"
  using step_down [of dc reach] by (auto simp: dist_def word_le_nat_alt)

lemma unat_SPEED: "unat SPEED = 3000"
  by (simp add: SPEED_def)

lemma view_cong:
  assumes "Pwm1_State t = Pwm1_State s" "Pwm1_dc t = Pwm1_dc s" "Pwm1_reach t = Pwm1_reach s"
    "Pwm1_delay t = Pwm1_delay s"
  shows "todo t = todo s" "awaits_loop t = awaits_loop s" "awaits_tick t = awaits_tick s"
    "moving t = moving s"
  using assms by (simp_all add: todo_def awaits_loop_def awaits_tick_def moving_def)

lemma todo_rest: "\<not> moving s \<Longrightarrow> todo s = 0"
  by (simp add: todo_def moving_def)

lemma todo_moving: "moving s \<Longrightarrow> 0 < todo s"
  by (auto simp: todo_def moving_def)

lemma awaits_either: "moving s \<Longrightarrow> awaits_loop s \<or> awaits_tick s"
  by (auto simp: moving_def awaits_loop_def awaits_tick_def)

lemma positioning_todo:
  assumes "moving s" "dir_ok s"
  shows "todo (positioning b s) \<le> todo s"
    and "awaits_loop s \<Longrightarrow> todo (positioning b s) < todo s"
    and "awaits_tick s \<Longrightarrow> awaits_tick (positioning b s)"
proof -
  have "todo (positioning b s) \<le> todo s
    \<and> (awaits_loop s \<longrightarrow> todo (positioning b s) < todo s)
    \<and> (awaits_tick s \<longrightarrow> awaits_tick (positioning b s))"
  proof (cases s rule: moving_cases)
    case up
    with assms have "Pwm1_dc s \<le> Pwm1_reach s" by (simp add: dir_ok_def)
    with up show ?thesis
      using dist_up [of "Pwm1_dc s" "Pwm1_reach s"]
      by (auto simp: positioning_MOVINGUP todo_def awaits_tick_def pwm_states unat_SPEED)
  next
    case down
    with assms have "Pwm1_reach s \<le> Pwm1_dc s" by (simp add: dir_ok_def pwm_states)
    with down show ?thesis
      using dist_down [of "Pwm1_dc s" "Pwm1_reach s"]
      by (auto simp: positioning_MOVINGDOWN todo_def awaits_tick_def pwm_states unat_SPEED)
  next
    case wup
    then show ?thesis
      by (auto simp: positioning_WAITINGUP todo_def awaits_tick_def awaits_loop_def pwm_states)
  next
    case wdown
    then show ?thesis
      by (auto simp: positioning_WAITINGDOWN todo_def awaits_tick_def awaits_loop_def pwm_states)
  next
    case rest
    with assms show ?thesis by simp
  qed
  then show "todo (positioning b s) \<le> todo s"
    and "awaits_loop s \<Longrightarrow> todo (positioning b s) < todo s"
    and "awaits_tick s \<Longrightarrow> awaits_tick (positioning b s)"
    by simp_all
qed

lemma main_loop_todo:
  assumes "moving s" "dir_ok s"
  shows "todo (main_loop b s) \<le> todo s"
    and "awaits_loop s \<Longrightarrow> todo (main_loop b s) < todo s"
    and "awaits_tick s \<Longrightarrow> awaits_tick (main_loop b s)"
proof -
  have c: "todo (confirm s) = todo s" "awaits_loop (confirm s) = awaits_loop s"
    "awaits_tick (confirm s) = awaits_tick s" "moving (confirm s)"
    using assms by (simp_all add: view_cong [of "confirm s" s])
  have d: "dir_ok (confirm s)" using assms by (simp add: dir_ok_cong [of "confirm s" s])
  from positioning_todo [OF c(4) d, where b = b] c
  show "todo (main_loop b s) \<le> todo s"
    and "awaits_loop s \<Longrightarrow> todo (main_loop b s) < todo s"
    and "awaits_tick s \<Longrightarrow> awaits_tick (main_loop b s)"
    by (simp_all add: main_loop_def)
qed

lemma Timer_A_todo:
  shows "todo (Timer_A l s) \<le> todo s"
    and "awaits_tick s \<Longrightarrow> todo (Timer_A l s) < todo s"
    and "awaits_loop s \<Longrightarrow> awaits_loop (Timer_A l s)"
proof -
  have "Pwm1_delay s \<noteq> 0 \<Longrightarrow> Suc (unat (Pwm1_delay s - 1)) = unat (Pwm1_delay s)"
    using step_down [of "Pwm1_delay s" 0] by simp
  then show "todo (Timer_A l s) \<le> todo s"
    and "awaits_tick s \<Longrightarrow> todo (Timer_A l s) < todo s"
    and "awaits_loop s \<Longrightarrow> awaits_loop (Timer_A l s)"
    by (auto simp: todo_def awaits_tick_def awaits_loop_def Timer_A_delay pwm_states)
qed

lemma Edge_view:
  "todo (exec (Edge f l) s) = todo s"
  "awaits_loop (exec (Edge f l) s) = awaits_loop s"
  "awaits_tick (exec (Edge f l) s) = awaits_tick s"
  by (simp_all add: view_cong [of "Port1_isr l (s\<lparr>P1IFG := f\<rparr>)" s])

text \<open>
  The induction behind the progress of a motion: \<open>m\<close> bounds the work left at the start
  of the current round; if nothing has been done since, a loop pass already seen means
  the machine waits for a tick, and a tick already seen means it waits for the loop.
\<close>

lemma rounds_finish:
  "dir_ok s \<Longrightarrow> todo s \<le> m \<Longrightarrow>
   (todo s = m \<and> moving s \<and> l \<longrightarrow> awaits_tick s) \<Longrightarrow>
   (todo s = m \<and> moving s \<and> t \<longrightarrow> awaits_loop s) \<Longrightarrow>
   m \<le> rounds_from l t es \<Longrightarrow> \<not> moving (fst (travel es s))"
proof (induction es arbitrary: s m l t)
  case Nil
  then have "todo s = 0" by simp
  then show ?case using todo_moving [of s] by auto
next
  case (Cons e es)
  show ?case
  proof (cases "moving s")
    case False
    then show ?thesis by simp
  next
    case True
    have d': "dir_ok (exec e s)" using Cons.prems(1) by (rule dir_ok_exec)
    have fst_eq: "fst (travel (e # es) s) = fst (travel es (exec e s))"
      using True by (simp split: prod.splits)
    show ?thesis
    proof (cases e)
      case (Edge f r)
      have "\<not> moving (fst (travel es (exec e s)))"
      proof (rule Cons.IH [OF d', of m l t])
        show "todo (exec e s) \<le> m" using Cons.prems(2) Edge by (simp only: Edge_view)
        show "todo (exec e s) = m \<and> moving (exec e s) \<and> l \<longrightarrow> awaits_tick (exec e s)"
          using Cons.prems(3) True Edge by (simp only: Edge_view) simp
        show "todo (exec e s) = m \<and> moving (exec e s) \<and> t \<longrightarrow> awaits_loop (exec e s)"
          using Cons.prems(4) True Edge by (simp only: Edge_view) simp
        show "m \<le> rounds_from l t es" using Cons.prems(5) Edge by simp
      qed
      with fst_eq show ?thesis by simp
    next
      case (Loop b)
      note tl = main_loop_todo [OF True Cons.prems(1), where b = b]
      show ?thesis
      proof (cases t)
        case True
        note t = this
        have lt: "todo (exec e s) < m"
        proof (cases "todo s = m")
          case True
          with Cons.prems(4) t \<open>moving s\<close> have "awaits_loop s" by simp
          with tl(2) True Loop show ?thesis by simp
        next
          case False
          with Cons.prems(2) tl(1) Loop show ?thesis by simp
        qed
        have "\<not> moving (fst (travel es (exec e s)))"
        proof (rule Cons.IH [OF d', of "todo (exec e s)" False False])
          show "todo (exec e s) \<le> rounds_from False False es"
            using lt Cons.prems(5) Loop t by simp
        qed simp_all
        with fst_eq show ?thesis by simp
      next
        case False
        note t = this
        have "\<not> moving (fst (travel es (exec e s)))"
        proof (rule Cons.IH [OF d', of m True False])
          show "todo (exec e s) \<le> m" using Cons.prems(2) tl(1) Loop by simp
          show "todo (exec e s) = m \<and> moving (exec e s) \<and> True \<longrightarrow> awaits_tick (exec e s)"
          proof
            assume a: "todo (exec e s) = m \<and> moving (exec e s) \<and> True"
            have "\<not> awaits_loop s"
            proof
              assume "awaits_loop s"
              with tl(2) Loop have "todo (exec e s) < todo s" by simp
              with a Cons.prems(2) show False by simp
            qed
            with awaits_either [OF \<open>moving s\<close>] have "awaits_tick s" by simp
            with tl(3) Loop show "awaits_tick (exec e s)" by simp
          qed
          show "todo (exec e s) = m \<and> moving (exec e s) \<and> False \<longrightarrow> awaits_loop (exec e s)"
            by simp
          show "m \<le> rounds_from True False es" using Cons.prems(5) Loop t by simp
        qed
        with fst_eq show ?thesis by simp
      qed
    next
      case (Tick r)
      note tt = Timer_A_todo [where l = r and s = s]
      show ?thesis
      proof (cases l)
        case True
        note l = this
        have lt: "todo (exec e s) < m"
        proof (cases "todo s = m")
          case True
          with Cons.prems(3) l \<open>moving s\<close> have "awaits_tick s" by simp
          with tt(2) True Tick show ?thesis by simp
        next
          case False
          with Cons.prems(2) tt(1) Tick show ?thesis by simp
        qed
        have "\<not> moving (fst (travel es (exec e s)))"
        proof (rule Cons.IH [OF d', of "todo (exec e s)" False False])
          show "todo (exec e s) \<le> rounds_from False False es"
            using lt Cons.prems(5) Tick l by simp
        qed simp_all
        with fst_eq show ?thesis by simp
      next
        case False
        note l = this
        have "\<not> moving (fst (travel es (exec e s)))"
        proof (rule Cons.IH [OF d', of m False True])
          show "todo (exec e s) \<le> m" using Cons.prems(2) tt(1) Tick by simp
          show "todo (exec e s) = m \<and> moving (exec e s) \<and> True \<longrightarrow> awaits_loop (exec e s)"
          proof
            assume a: "todo (exec e s) = m \<and> moving (exec e s) \<and> True"
            have "\<not> awaits_tick s"
            proof
              assume "awaits_tick s"
              with tt(2) Tick have "todo (exec e s) < todo s" by simp
              with a Cons.prems(2) show False by simp
            qed
            with awaits_either [OF \<open>moving s\<close>] have "awaits_loop s" by simp
            with tt(3) Tick show "awaits_loop (exec e s)" by simp
          qed
          show "todo (exec e s) = m \<and> moving (exec e s) \<and> False \<longrightarrow> awaits_tick (exec e s)"
            by simp
          show "m \<le> rounds_from False True es" using Cons.prems(5) Tick l by simp
        qed
        with fst_eq show ?thesis by simp
      qed
    qed
  qed
qed

lemma arrival:
  assumes "moving s" "\<not> moving (exec e s)"
  shows "Pwm1_State (exec e s) = POSIT \<and> Pwm1_dc (exec e s) = Pwm1_dc s
    \<and> Pwm1_dc s = Pwm1_reach s \<and> Command (exec e s) = FALSE"
proof (cases e)
  case (Tick l)
  with assms show ?thesis by (simp add: moving_def)
next
  case (Edge f l)
  with assms show ?thesis by (simp add: moving_def)
next
  case (Loop b)
  let ?c = "confirm s"
  from assms Loop have m: "moving ?c" "\<not> moving (positioning b ?c)"
    by (simp_all add: main_loop_def)
  have "Pwm1_State (positioning b ?c) = POSIT \<and> Pwm1_dc (positioning b ?c) = Pwm1_dc ?c
    \<and> Pwm1_dc ?c = Pwm1_reach ?c \<and> Command (positioning b ?c) = FALSE"
    using m by (cases ?c rule: moving_cases)
      (auto simp: positioning_MOVINGUP positioning_MOVINGDOWN positioning_WAITINGUP
         positioning_WAITINGDOWN moving_def pwm_states split: if_splits)
  with Loop show ?thesis by (simp add: main_loop_def)
qed

lemma travel_rest: "\<not> moving s \<Longrightarrow> travel es s = (s, 0)"
  by (cases es) simp_all

lemma travel_count:
  "dir_ok s \<Longrightarrow> moving s \<Longrightarrow>
   snd (travel es s) + dist (Pwm1_dc (fst (travel es s))) (Pwm1_reach s)
     = dist (Pwm1_dc s) (Pwm1_reach s)
   \<and> (\<not> moving (fst (travel es s)) \<longrightarrow>
        Pwm1_State (fst (travel es s)) = POSIT \<and> Pwm1_dc (fst (travel es s)) = Pwm1_reach s
        \<and> Command (fst (travel es s)) = FALSE)"
proof (induction es arbitrary: s)
  case Nil
  then show ?case by simp
next
  case (Cons e es)
  let ?s' = "exec e s"
  have r: "Pwm1_reach ?s' = Pwm1_reach s" using Cons.prems(2) by (rule exec_reach_moving)
  have d: "dir_ok ?s'" using Cons.prems(1) by (rule dir_ok_exec)
  show ?case
  proof (cases "moving ?s'")
    case False
    from arrival [OF Cons.prems(2) False] False Cons.prems(2)
    show ?thesis by (simp add: travel_rest)
  next
    case True
    note ih = Cons.IH [OF d True, unfolded r]
    from exec_dc_step [OF Cons.prems(1), of e]
    consider (same) "Pwm1_dc ?s' = Pwm1_dc s"
      | (inc) "Pwm1_dc s < Pwm1_reach s" "Pwm1_dc ?s' = Pwm1_dc s + 1"
          "unat (Pwm1_dc ?s') = Suc (unat (Pwm1_dc s))"
      | (dec) "Pwm1_reach s < Pwm1_dc s" "Pwm1_dc ?s' = Pwm1_dc s - 1"
          "Suc (unat (Pwm1_dc ?s')) = unat (Pwm1_dc s)"
      by blast
    then show ?thesis
    proof cases
      case same
      with ih Cons.prems(2) show ?thesis by (simp add: case_prod_beta)
    next
      case inc
      then have ne: "Pwm1_dc ?s' \<noteq> Pwm1_dc s" by auto
      from inc have "Suc (dist (Pwm1_dc ?s') (Pwm1_reach s)) = dist (Pwm1_dc s) (Pwm1_reach s)"
        using dist_up [of "Pwm1_dc s" "Pwm1_reach s"] by simp
      with ih ne Cons.prems(2) show ?thesis by (simp add: case_prod_beta)
    next
      case dec
      then have ne: "Pwm1_dc ?s' \<noteq> Pwm1_dc s" by auto
      from dec have "Suc (dist (Pwm1_dc ?s') (Pwm1_reach s)) = dist (Pwm1_dc s) (Pwm1_reach s)"
        using dist_down [of "Pwm1_dc s" "Pwm1_reach s"] by simp
      with ih ne Cons.prems(2) show ?thesis by (simp add: case_prod_beta)
    qed
  qed
qed

lemma exec_step_waits:
  assumes "moving s" "Pwm1_dc (exec e s) \<noteq> Pwm1_dc s"
  shows "(Pwm1_State s = MOVINGUP \<and> Pwm1_State (exec e s) = WAITINGUP
            \<and> Pwm1_dc (exec e s) = Pwm1_dc s + 1
        \<or> Pwm1_State s = MOVINGDOWN \<and> Pwm1_State (exec e s) = WAITINGDOWN
            \<and> Pwm1_dc (exec e s) = Pwm1_dc s - 1)
       \<and> Pwm1_delay (exec e s) = SPEED"
proof (cases e)
  case (Tick l)
  with assms show ?thesis by simp
next
  case (Edge f l)
  with assms show ?thesis by simp
next
  case (Loop b)
  let ?c = "confirm s"
  from assms Loop have m: "moving ?c" "Pwm1_dc (positioning b ?c) \<noteq> Pwm1_dc ?c"
    by (simp_all add: main_loop_def)
  have "(Pwm1_State ?c = MOVINGUP \<and> Pwm1_State (positioning b ?c) = WAITINGUP
            \<and> Pwm1_dc (positioning b ?c) = Pwm1_dc ?c + 1
        \<or> Pwm1_State ?c = MOVINGDOWN \<and> Pwm1_State (positioning b ?c) = WAITINGDOWN
            \<and> Pwm1_dc (positioning b ?c) = Pwm1_dc ?c - 1)
       \<and> Pwm1_delay (positioning b ?c) = SPEED"
    using m by (cases ?c rule: moving_cases)
      (auto simp: positioning_MOVINGUP positioning_MOVINGDOWN positioning_WAITINGUP
         positioning_WAITINGDOWN split: if_splits)
  with Loop show ?thesis by (simp add: main_loop_def)
qed

lemma exec_direction:
  "(Pwm1_State s = MOVINGUP \<or> Pwm1_State s = WAITINGUP \<longrightarrow>
      Pwm1_State (exec e s) = MOVINGUP \<or> Pwm1_State (exec e s) = WAITINGUP
      \<or> Pwm1_State (exec e s) = POSIT)
   \<and> (Pwm1_State s = MOVINGDOWN \<or> Pwm1_State s = WAITINGDOWN \<longrightarrow>
      Pwm1_State (exec e s) = MOVINGDOWN \<or> Pwm1_State (exec e s) = WAITINGDOWN
      \<or> Pwm1_State (exec e s) = POSIT)"
proof (cases e)
  case (Loop b)
  let ?c = "confirm s"
  have "(Pwm1_State ?c = MOVINGUP \<or> Pwm1_State ?c = WAITINGUP \<longrightarrow>
      Pwm1_State (positioning b ?c) = MOVINGUP \<or> Pwm1_State (positioning b ?c) = WAITINGUP
      \<or> Pwm1_State (positioning b ?c) = POSIT)
   \<and> (Pwm1_State ?c = MOVINGDOWN \<or> Pwm1_State ?c = WAITINGDOWN \<longrightarrow>
      Pwm1_State (positioning b ?c) = MOVINGDOWN \<or> Pwm1_State (positioning b ?c) = WAITINGDOWN
      \<or> Pwm1_State (positioning b ?c) = POSIT)"
    by (cases ?c rule: moving_cases)
      (auto simp: positioning_MOVINGUP positioning_MOVINGDOWN positioning_WAITINGUP
         positioning_WAITINGDOWN moving_def pwm_states)
  with Loop show ?thesis by (simp add: main_loop_def)
qed simp_all

lemma dir_ok_run: "dir_ok s \<Longrightarrow> dir_ok (run es s)"
  by (induction es arbitrary: s) (simp_all add: dir_ok_exec)

lemma rounds_alternate: "rounds_from False False (concat (replicate n [Loop b, Tick r])) = n"
  by (induction n) simp_all

lemma triggered:
  assumes "Pwm1_State s = POSIT" "button \<or> Command (confirm s) = TRUE"
  shows "moving (main_loop button s)" "dir_ok (main_loop button s)"
    "Pwm1_reach (main_loop button s) = spec_target POSIT_START POSIT_END (Pwm1_dc s)"
    "Pwm1_dc (main_loop button s) = Pwm1_dc s"
    "todo (main_loop button s)
       = dist (Pwm1_dc s) (spec_target POSIT_START POSIT_END (Pwm1_dc s)) * (unat SPEED + 2) + 1"
    "Pwm1_State (main_loop button s) =
       (if spec_target POSIT_START POSIT_END (Pwm1_dc s) > Pwm1_dc s then MOVINGUP else MOVINGDOWN)"
proof -
  from assms(1) have nm: "\<not> moving (confirm s)" by (simp add: moving_def pwm_states)
  note p = positioning_at_rest [OF nm assms(2)]
  show g: "Pwm1_reach (main_loop button s) = spec_target POSIT_START POSIT_END (Pwm1_dc s)"
    and c: "Pwm1_dc (main_loop button s) = Pwm1_dc s"
    using p by (simp_all add: main_loop_def)
  show st: "Pwm1_State (main_loop button s) =
       (if spec_target POSIT_START POSIT_END (Pwm1_dc s) > Pwm1_dc s then MOVINGUP else MOVINGDOWN)"
    using p by (simp add: main_loop_def)
  then show "moving (main_loop button s)" by (simp add: moving_def)
  from st g c show "dir_ok (main_loop button s)"
    by (auto simp: dir_ok_def pwm_states)
  from st g c show "todo (main_loop button s)
       = dist (Pwm1_dc s) (spec_target POSIT_START POSIT_END (Pwm1_dc s)) * (unat SPEED + 2) + 1"
    by (simp add: todo_def)
qed

text \<open>
  C1. Let the machine be in \<open>POSIT\<close> at duty cycle \<open>D\<close> when a pass of the foreground
  loop finds a trigger, and let the target be the endpoint the tie-break rule gives for
  \<open>D\<close>. In every continuation \<open>es\<close> in which loop passes and timer interrupts keep
  occurring (at least \<open>|target - D| * (SPEED + 2) + 1\<close> rounds), in any order and with
  any inputs, the machine comes back to \<open>POSIT\<close> with \<open>Pwm1_dc\<close> equal to the target
  after exactly \<open>|target - D|\<close> changes of \<open>Pwm1_dc\<close>. Every change of \<open>Pwm1_dc\<close>
  during a motion is by one unit and enters a \<open>WAITING\<close> state with \<open>Pwm1_delay\<close>
  equal to \<open>SPEED\<close>. From duty 161 the target is 78 and the motion starts in
  \<open>MOVINGDOWN\<close>; from duty 78 the target is 161 and it starts in \<open>MOVINGUP\<close>; a
  motion down passes only through \<open>MOVINGDOWN\<close> and \<open>WAITINGDOWN\<close> before \<open>POSIT\<close>,
  a motion up only through \<open>MOVINGUP\<close> and \<open>WAITINGUP\<close>.
\<close>

theorem positioning_reaches_goal:
  assumes "Pwm1_State s = POSIT" and "button \<or> Command (confirm s) = TRUE"
    and "dist (Pwm1_dc s) (spec_target POSIT_START POSIT_END (Pwm1_dc s)) * (unat SPEED + 2) + 1
           \<le> rounds es"
  shows "Pwm1_State (fst (travel es (main_loop button s))) = POSIT
    \<and> Pwm1_dc (fst (travel es (main_loop button s))) = spec_target POSIT_START POSIT_END (Pwm1_dc s)
    \<and> snd (travel es (main_loop button s))
        = dist (Pwm1_dc s) (spec_target POSIT_START POSIT_END (Pwm1_dc s))
    \<and> (moving (run es1 (main_loop button s))
        \<and> Pwm1_dc (exec e (run es1 (main_loop button s))) \<noteq> Pwm1_dc (run es1 (main_loop button s))
       \<longrightarrow> (Pwm1_State (exec e (run es1 (main_loop button s))) = WAITINGUP
             \<or> Pwm1_State (exec e (run es1 (main_loop button s))) = WAITINGDOWN)
          \<and> Pwm1_delay (exec e (run es1 (main_loop button s))) = SPEED
          \<and> dist (Pwm1_dc (run es1 (main_loop button s)))
                 (Pwm1_dc (exec e (run es1 (main_loop button s)))) = 1)
    \<and> (Pwm1_dc s = POSIT_START \<longrightarrow>
          spec_target POSIT_START POSIT_END (Pwm1_dc s) = POSIT_END
          \<and> Pwm1_State (main_loop button s) = MOVINGDOWN)
    \<and> (Pwm1_dc s = POSIT_END \<longrightarrow>
          spec_target POSIT_START POSIT_END (Pwm1_dc s) = POSIT_START
          \<and> Pwm1_State (main_loop button s) = MOVINGUP)
    \<and> (Pwm1_State u = MOVINGDOWN \<or> Pwm1_State u = WAITINGDOWN \<longrightarrow>
          Pwm1_State (exec e u) = MOVINGDOWN \<or> Pwm1_State (exec e u) = WAITINGDOWN
          \<or> Pwm1_State (exec e u) = POSIT)
    \<and> (Pwm1_State u = MOVINGUP \<or> Pwm1_State u = WAITINGUP \<longrightarrow>
          Pwm1_State (exec e u) = MOVINGUP \<or> Pwm1_State (exec e u) = WAITINGUP
          \<or> Pwm1_State (exec e u) = POSIT)"
proof -
  let ?s1 = "main_loop button s"
  let ?g = "spec_target POSIT_START POSIT_END (Pwm1_dc s)"
  note t = triggered [OF assms(1,2)]
  have fin: "\<not> moving (fst (travel es ?s1))"
  proof (rule rounds_finish [OF t(2), of "todo ?s1" False False])
    show "todo ?s1 \<le> rounds_from False False es"
      using assms(3) t(5) by (simp add: rounds_def)
  qed simp_all
  note tc = travel_count [OF t(2) t(1), of es, unfolded t(3) t(4)]
  from tc fin have a: "Pwm1_State (fst (travel es ?s1)) = POSIT"
    and b: "Pwm1_dc (fst (travel es ?s1)) = ?g"
    by simp_all
  from tc have "snd (travel es ?s1) + dist (Pwm1_dc (fst (travel es ?s1))) ?g = dist (Pwm1_dc s) ?g"
    by simp
  then have c: "snd (travel es ?s1) = dist (Pwm1_dc s) ?g"
    by (simp add: b)
  have d: "moving (run es1 ?s1) \<and> Pwm1_dc (exec e (run es1 ?s1)) \<noteq> Pwm1_dc (run es1 ?s1)
       \<longrightarrow> (Pwm1_State (exec e (run es1 ?s1)) = WAITINGUP
             \<or> Pwm1_State (exec e (run es1 ?s1)) = WAITINGDOWN)
          \<and> Pwm1_delay (exec e (run es1 ?s1)) = SPEED
          \<and> dist (Pwm1_dc (run es1 ?s1)) (Pwm1_dc (exec e (run es1 ?s1))) = 1"
  proof
    let ?u = "run es1 ?s1"
    assume h: "moving ?u \<and> Pwm1_dc (exec e ?u) \<noteq> Pwm1_dc ?u"
    have "dir_ok ?u" using t(2) by (rule dir_ok_run)
    from exec_dc_step [OF this, of e] h
    have "dist (Pwm1_dc ?u) (Pwm1_dc (exec e ?u)) = 1"
      by (auto simp: dist_def word_le_nat_alt)
    with exec_step_waits [of ?u e] h
    show "(Pwm1_State (exec e ?u) = WAITINGUP \<or> Pwm1_State (exec e ?u) = WAITINGDOWN)
          \<and> Pwm1_delay (exec e ?u) = SPEED
          \<and> dist (Pwm1_dc ?u) (Pwm1_dc (exec e ?u)) = 1"
      by auto
  qed
  have e1: "Pwm1_dc s = POSIT_START \<longrightarrow> ?g = POSIT_END \<and> Pwm1_State ?s1 = MOVINGDOWN"
    using t(6) by (simp add: spec_target_def pwm_consts)
  have e2: "Pwm1_dc s = POSIT_END \<longrightarrow> ?g = POSIT_START \<and> Pwm1_State ?s1 = MOVINGUP"
    using t(6) by (simp add: spec_target_def pwm_consts)
  from a b c d e1 e2 exec_direction [of u e] show ?thesis by blast
qed

lemma rounds_alternating: "rounds (alternating n) = n"
  by (simp add: rounds_def alternating_def rounds_alternate)

text \<open>
  The scenario of the specification: from \<open>Init\<close> (duty 161) a trigger ends at rest at
  duty 78 after 83 steps, and a second trigger ends at rest at duty 161 after 83 steps.
\<close>

theorem positioning_reaches_goal_witness:
  "Pwm1_State (Init power_up) = POSIT \<and> Pwm1_dc (Init power_up) = 161
   \<and> Pwm1_State (main_loop True (Init power_up)) = MOVINGDOWN
   \<and> Pwm1_State (exec (Loop False) (main_loop True (Init power_up))) = WAITINGDOWN
   \<and> Pwm1_dc (exec (Loop False) (main_loop True (Init power_up))) = 160
   \<and> Pwm1_delay (exec (Loop False) (main_loop True (Init power_up))) = SPEED
   \<and> Pwm1_State (fst (travel (alternating 249167) (main_loop True (Init power_up)))) = POSIT
   \<and> Pwm1_dc (fst (travel (alternating 249167) (main_loop True (Init power_up)))) = 78
   \<and> snd (travel (alternating 249167) (main_loop True (Init power_up))) = 83
   \<and> Pwm1_State (main_loop True (fst (travel (alternating 249167) (main_loop True (Init power_up)))))
       = MOVINGUP
   \<and> Pwm1_State (fst (travel (alternating 249167)
        (main_loop True (fst (travel (alternating 249167) (main_loop True (Init power_up))))))) = POSIT
   \<and> Pwm1_dc (fst (travel (alternating 249167)
        (main_loop True (fst (travel (alternating 249167) (main_loop True (Init power_up))))))) = 161
   \<and> snd (travel (alternating 249167)
        (main_loop True (fst (travel (alternating 249167) (main_loop True (Init power_up)))))) = 83"
proof -
  let ?es = "alternating 249167"
  let ?s0 = "Init power_up"
  let ?t1 = "fst (travel ?es (main_loop True ?s0))"
  have h0: "Pwm1_State ?s0 = POSIT" "Pwm1_dc ?s0 = 161"
    by (simp_all add: Init_fields pwm_consts)
  have g0: "spec_target POSIT_START POSIT_END 161 = 78" "dist 161 78 = 83"
    by (simp_all add: spec_target_def dist_def pwm_consts)
  have g1: "spec_target POSIT_START POSIT_END 78 = 161" "dist 78 161 = 83"
    by (simp_all add: spec_target_def dist_def pwm_consts)
  have r0: "dist (Pwm1_dc ?s0) (spec_target POSIT_START POSIT_END (Pwm1_dc ?s0)) * (unat SPEED + 2) + 1
      \<le> rounds ?es"
    by (simp add: h0 g0 rounds_alternating unat_SPEED)
  note w1 = positioning_reaches_goal [where s = ?s0 and button = True and es = ?es
      and ?es1.0 = "[]" and e = "Loop False" and u = ?s0, OF h0(1) _ r0]
  have m0: "moving (main_loop True ?s0)"
    "Pwm1_dc (exec (Loop False) (main_loop True ?s0)) \<noteq> Pwm1_dc (main_loop True ?s0)"
    "Pwm1_dc (exec (Loop False) (main_loop True ?s0)) = 160"
    "Pwm1_State (exec (Loop False) (main_loop True ?s0)) = WAITINGDOWN"
    by (simp_all add: run_defs)
  from w1 h0 g0 m0 have a1: "Pwm1_State ?t1 = POSIT" "Pwm1_dc ?t1 = 78"
    "snd (travel ?es (main_loop True ?s0)) = 83"
    "Pwm1_State (main_loop True ?s0) = MOVINGDOWN"
    "Pwm1_State (exec (Loop False) (main_loop True ?s0)) = WAITINGDOWN"
    "Pwm1_delay (exec (Loop False) (main_loop True ?s0)) = SPEED"
    by (simp_all add: pwm_consts pwm_states)
  have r1: "dist (Pwm1_dc ?t1) (spec_target POSIT_START POSIT_END (Pwm1_dc ?t1)) * (unat SPEED + 2) + 1
      \<le> rounds ?es"
    by (simp add: a1 g1 rounds_alternating unat_SPEED)
  note w2 = positioning_reaches_goal [where s = ?t1 and button = True and es = ?es
      and ?es1.0 = "[]" and e = "Loop False" and u = ?s0, OF a1(1) _ r1]
  from w2 a1 g1 have a2: "Pwm1_State (fst (travel ?es (main_loop True ?t1))) = POSIT"
    "Pwm1_dc (fst (travel ?es (main_loop True ?t1))) = 161"
    "snd (travel ?es (main_loop True ?t1)) = 83"
    "Pwm1_State (main_loop True ?t1) = MOVINGUP"
    by (simp_all add: pwm_consts)
  from h0 m0 a1 a2 show ?thesis by simp
qed

section \<open>The RF envelope qualifier: a clean period\<close>

subsection \<open>Runs of equal readings\<close>

lemma run_append: "run (xs @ ys) s = run ys (run xs s)"
  by (induction xs arbitrary: s) simp_all

lemma tick_DETHIGH:
  assumes "Pwm1_State s = POSIT" "RfDetState s = DETHIGH"
  shows "Pwm1_State (Timer_A l s) = POSIT"
    and "RfDetState (Timer_A l s) =
      (if l then (if RfDetCounter s < COUNTHIGH then DETHIGH else DETLOW)
       else (if RfDetCounter s \<ge> COUNTHIGH - COUNTOLER then DETLOW else DETEND))"
    and "RfDetCounter (Timer_A l s) =
      (if l then (if RfDetCounter s < COUNTHIGH then RfDetCounter s + 1 else 0)
       else (if RfDetCounter s \<ge> COUNTHIGH - COUNTOLER then 0 else RfDetCounter s))"
    and "RfDetected (Timer_A l s) =
      (if \<not> l \<and> \<not> RfDetCounter s \<ge> COUNTHIGH - COUNTOLER then FALSE else RfDetected s)"
  using assms by (simp_all add: Timer_A_det rf_detect_def Let_def)

lemma tick_DETLOW:
  assumes "Pwm1_State s = POSIT" "RfDetState s = DETLOW"
  shows "Pwm1_State (Timer_A l s) = POSIT"
    and "RfDetState (Timer_A l s) =
      (if \<not> l \<and> RfDetCounter s < COUNTLOW then DETLOW else DETEND)"
    and "RfDetCounter (Timer_A l s) =
      (if \<not> l then (if RfDetCounter s < COUNTLOW then RfDetCounter s + 1 else 0)
       else (if RfDetCounter s \<ge> COUNTLOW - COUNTOLER then 0 else RfDetCounter s))"
    and "RfDetected (Timer_A l s) =
      (if \<not> l then (if RfDetCounter s < COUNTLOW then RfDetected s else TRUE)
       else (if RfDetCounter s \<ge> COUNTLOW - COUNTOLER then TRUE else FALSE))"
  using assms by (simp_all add: Timer_A_det rf_detect_def Let_def det_states)

lemma tick_DETEND:
  assumes "RfDetState s = DETEND"
  shows "RfDetected (Timer_A l s) = RfDetected s"
  using assms by (simp add: Timer_A_det rf_detect_def Let_def det_states)

lemma high_run:
  "Pwm1_State s = POSIT \<Longrightarrow> RfDetState s = DETHIGH \<Longrightarrow> unat (RfDetCounter s) + n \<le> 625 \<Longrightarrow>
   Pwm1_State (run (replicate n (Tick True)) s) = POSIT
   \<and> RfDetState (run (replicate n (Tick True)) s) = DETHIGH
   \<and> unat (RfDetCounter (run (replicate n (Tick True)) s)) = unat (RfDetCounter s) + n
   \<and> RfDetected (run (replicate n (Tick True)) s) = RfDetected s"
proof (induction n arbitrary: s)
  case 0
  then show ?case by simp
next
  case (Suc n)
  from Suc.prems have lt: "RfDetCounter s < COUNTHIGH"
    by (simp add: COUNTHIGH_def word_less_nat_alt)
  then have u: "unat (RfDetCounter s + 1) = Suc (unat (RfDetCounter s))"
    by (rule unat_inc)
  note t = tick_DETHIGH [OF Suc.prems(1,2), of True]
  have "Pwm1_State (Timer_A True s) = POSIT" "RfDetState (Timer_A True s) = DETHIGH"
    "unat (RfDetCounter (Timer_A True s)) + n \<le> 625"
    using t lt u Suc.prems(3) by simp_all
  from Suc.IH [OF this] t lt u show ?case by simp
qed

lemma low_run:
  "Pwm1_State s = POSIT \<Longrightarrow> RfDetState s = DETLOW \<Longrightarrow> unat (RfDetCounter s) + n \<le> 624 \<Longrightarrow>
   Pwm1_State (run (replicate n (Tick False)) s) = POSIT
   \<and> RfDetState (run (replicate n (Tick False)) s) = DETLOW
   \<and> unat (RfDetCounter (run (replicate n (Tick False)) s)) = unat (RfDetCounter s) + n
   \<and> RfDetected (run (replicate n (Tick False)) s) = RfDetected s"
proof (induction n arbitrary: s)
  case 0
  then show ?case by simp
next
  case (Suc n)
  from Suc.prems have lt: "RfDetCounter s < COUNTLOW"
    by (simp add: COUNTLOW_def word_less_nat_alt)
  then have u: "unat (RfDetCounter s + 1) = Suc (unat (RfDetCounter s))"
    by (rule unat_inc)
  note t = tick_DETLOW [OF Suc.prems(1,2), of False]
  have "Pwm1_State (Timer_A False s) = POSIT" "RfDetState (Timer_A False s) = DETLOW"
    "unat (RfDetCounter (Timer_A False s)) + n \<le> 624"
    using t lt u Suc.prems(3) by simp_all
  from Suc.IH [OF this] t lt u show ?case by simp
qed

text \<open>A full HIGH run, the LOW read that ends it, and the rest of the LOW run.\<close>

lemma envelope_body:
  assumes "Pwm1_State s = POSIT" "RfDetState s = DETHIGH" "RfDetCounter s = 0"
  shows "Pwm1_State (run (replicate 625 (Tick True) @ replicate 624 (Tick False)) s) = POSIT
   \<and> RfDetState (run (replicate 625 (Tick True) @ replicate 624 (Tick False)) s) = DETLOW
   \<and> RfDetCounter (run (replicate 625 (Tick True) @ replicate 624 (Tick False)) s) = 623
   \<and> RfDetected (run (replicate 625 (Tick True) @ replicate 624 (Tick False)) s) = RfDetected s"
proof -
  let ?h = "run (replicate 625 (Tick True)) s"
  from high_run [OF assms(1,2), of 625] assms(3)
  have h: "Pwm1_State ?h = POSIT" "RfDetState ?h = DETHIGH" "unat (RfDetCounter ?h) = 625"
    "RfDetected ?h = RfDetected s"
    by simp_all
  from h(3) have hc: "RfDetCounter ?h = 625"
    using word_unat_eq_iff [of "RfDetCounter ?h" 625] by simp
  let ?d = "Timer_A False ?h"
  note t = tick_DETHIGH [OF h(1,2), of False]
  have d: "Pwm1_State ?d = POSIT" "RfDetState ?d = DETLOW" "RfDetCounter ?d = 0"
    "RfDetected ?d = RfDetected s"
    using t hc h(4) by (simp_all add: rf_consts)
  let ?l = "run (replicate 623 (Tick False)) ?d"
  from low_run [OF d(1,2), of 623] d(3,4)
  have l: "Pwm1_State ?l = POSIT" "RfDetState ?l = DETLOW" "unat (RfDetCounter ?l) = 623"
    "RfDetected ?l = RfDetected s"
    by simp_all
  from l(3) have lc: "RfDetCounter ?l = 623"
    using word_unat_eq_iff [of "RfDetCounter ?l" 623] by simp
  have "replicate 624 (Tick False) = Tick False # replicate 623 (Tick False)"
    by (simp add: replicate_Suc [symmetric] del: replicate_Suc)
  then have "run (replicate 625 (Tick True) @ replicate 624 (Tick False)) s = ?l"
    by (simp add: run_append)
  with l lc show ?thesis by simp
qed

text \<open>
  C5, as the code has it. Start in \<open>DETHIGH\<close> with \<open>RfDetCounter = 0\<close> and the
  positioning machine in \<open>POSIT\<close>, and let only timer interrupts occur. After
  \<open>COUNTHIGH\<close> HIGH reads and \<open>COUNTLOW\<close> LOW reads the qualifier is still counting in
  \<open>DETLOW\<close> and \<open>RfDetected\<close> has not been written; the next read, if HIGH, sets
  \<open>RfDetected = TRUE\<close>, and whatever the next two reads are, \<open>RfDetected = TRUE\<close>
  after them. After \<open>COUNTHIGH - COUNTOLER - 1\<close> HIGH reads, a LOW read sets
  \<open>RfDetected = FALSE\<close>.
\<close>

theorem envelope_qualified:
  assumes "Pwm1_State s = POSIT" "RfDetState s = DETHIGH" "RfDetCounter s = 0"
  shows "RfDetected (run (replicate (unat COUNTHIGH) (Tick True)
            @ replicate (unat COUNTLOW) (Tick False)) s) = RfDetected s
    \<and> RfDetected (run (replicate (unat COUNTHIGH) (Tick True)
            @ replicate (unat COUNTLOW) (Tick False) @ [Tick True]) s) = TRUE
    \<and> RfDetected (run (replicate (unat COUNTHIGH) (Tick True)
            @ replicate (unat COUNTLOW) (Tick False) @ [Tick l1, Tick l2]) s) = TRUE
    \<and> RfDetected (run (replicate (unat COUNTHIGH - unat COUNTOLER - 1) (Tick True)
            @ [Tick False]) s) = FALSE"
proof -
  let ?b = "run (replicate 625 (Tick True) @ replicate 624 (Tick False)) s"
  from envelope_body [OF assms]
  have b: "Pwm1_State ?b = POSIT" "RfDetState ?b = DETLOW" "RfDetCounter ?b = 623"
    "RfDetected ?b = RfDetected s"
    by simp_all
  note t1 = tick_DETLOW [OF b(1,2)]
  have one: "RfDetected (Timer_A True ?b) = TRUE"
    using t1 [of True] b(3) by (simp add: rf_consts)
  have two: "RfDetected (Timer_A l2 (Timer_A l1 ?b)) = TRUE"
  proof (cases l1)
    case True
    then have "RfDetState (Timer_A l1 ?b) = DETEND" "RfDetected (Timer_A l1 ?b) = TRUE"
      using t1 [of True] b(3) by (simp_all add: rf_consts)
    then show ?thesis by (simp add: tick_DETEND)
  next
    case False
    then have c: "Pwm1_State (Timer_A l1 ?b) = POSIT" "RfDetState (Timer_A l1 ?b) = DETLOW"
      "RfDetCounter (Timer_A l1 ?b) = 624"
      using t1 [of False] b(3) by (simp_all add: rf_consts)
    from tick_DETLOW [OF c(1,2), of l2] c(3) show ?thesis
      by (simp add: rf_consts)
  qed
  let ?h = "run (replicate 614 (Tick True)) s"
  from high_run [OF assms(1,2), of 614] assms(3)
  have h: "Pwm1_State ?h = POSIT" "RfDetState ?h = DETHIGH" "unat (RfDetCounter ?h) = 614"
    by simp_all
  from h(3) have hc: "RfDetCounter ?h = 614"
    using word_unat_eq_iff [of "RfDetCounter ?h" 614] by simp
  have short: "RfDetected (Timer_A False ?h) = FALSE"
    using tick_DETHIGH [OF h(1,2), of False] hc by (simp add: rf_consts)
  have "unat COUNTHIGH = 625" "unat COUNTLOW = 624" "unat COUNTHIGH - unat COUNTOLER - 1 = 614"
    by (simp_all add: rf_consts)
  with b(4) one two short show ?thesis
    by (simp add: run_append)
qed

lemma armed:
  "Pwm1_State (exec (Edge BIT6 True) (Init power_up)) = POSIT"
  "RfDetState (exec (Edge BIT6 True) (Init power_up)) = DETHIGH"
  "RfDetCounter (exec (Edge BIT6 True) (Init power_up)) = 0"
  "RfDetected (exec (Edge BIT6 True) (Init power_up)) = FALSE"
  by (simp_all add: run_defs)

theorem envelope_qualified_witness:
  "Pwm1_State (exec (Edge BIT6 True) (Init power_up)) = POSIT
   \<and> RfDetState (exec (Edge BIT6 True) (Init power_up)) = DETHIGH
   \<and> RfDetCounter (exec (Edge BIT6 True) (Init power_up)) = 0
   \<and> RfDetected (exec (Edge BIT6 True) (Init power_up)) = FALSE
   \<and> RfDetected (run (replicate (unat COUNTHIGH) (Tick True)
        @ replicate (unat COUNTLOW) (Tick False) @ [Tick True])
        (exec (Edge BIT6 True) (Init power_up))) = TRUE
   \<and> RfDetected (run (replicate (unat COUNTHIGH - unat COUNTOLER - 1) (Tick True) @ [Tick False])
        (exec (Edge BIT6 True) (Init power_up))) = FALSE"
  using envelope_qualified [of "exec (Edge BIT6 True) (Init power_up)" True True] armed
  by simp

text \<open>
  At the end of the 624th LOW read the flag is not yet \<open>TRUE\<close>: from \<open>Init\<close>, after a
  rising edge, 625 HIGH reads and 624 LOW reads, the qualifier is in \<open>DETLOW\<close> and
  \<open>RfDetected\<close> is still \<open>FALSE\<close>.
\<close>

theorem envelope_not_yet_qualified:
  "RfDetected (run (Edge BIT6 True # replicate 625 (Tick True) @ replicate 624 (Tick False))
      (Init power_up)) = FALSE
   \<and> RfDetState (run (Edge BIT6 True # replicate 625 (Tick True) @ replicate 624 (Tick False))
      (Init power_up)) = DETLOW
   \<and> RfDetected (run (Edge BIT6 True # replicate 625 (Tick True) @ replicate 624 (Tick False))
      (Init power_up)) \<noteq> TRUE"
  using envelope_body [OF armed(1,2,3)] armed(4)
  by (simp add: bool_consts)

section \<open>The command confirmation state machine\<close>

subsection \<open>One pass and one tick\<close>

lemma confirm_IDLE:
  assumes "RfDetConfirmSt s = IDLE"
  shows "RfDetConfirmSt (confirm s) =
      (if RfDetected s \<noteq> 0 \<and> Pwm1_State s = POSIT then VALIDATE else IDLE)"
    and "RfLongDelay (confirm s) =
      (if RfDetected s \<noteq> 0 \<and> Pwm1_State s = POSIT then VALIDATE_RF else RfLongDelay s)"
    and "Command (confirm s) = Command s"
  using assms by (simp_all add: confirm_def)

lemma confirm_VALIDATE:
  assumes "RfDetConfirmSt s = VALIDATE"
  shows "RfDetConfirmSt (confirm s) =
      (if RfDetected s \<noteq> 0 then (if RfLongDelay s = 0 then WAITDETEND else VALIDATE) else IDLE)"
    and "RfLongDelay (confirm s) =
      (if RfDetected s \<noteq> 0 \<and> RfLongDelay s = 0 then WAITEND_RF else RfLongDelay s)"
    and "Command (confirm s) = Command s"
  using assms by (simp_all add: confirm_def confirm_states)

lemma confirm_WAITDETEND:
  assumes "RfDetConfirmSt s = WAITDETEND"
  shows "RfDetConfirmSt (confirm s) =
      (if RfDetected s = 0 \<and> RfLongDelay s = 0 then IGNORE else WAITDETEND)"
    and "RfLongDelay (confirm s) =
      (if RfDetected s = 0 then (if RfLongDelay s = 0 then IGNORE_RF else RfLongDelay s)
       else WAITEND_RF)"
    and "Command (confirm s) =
      (if RfDetected s = 0 \<and> RfLongDelay s = 0 then TRUE else Command s)"
  using assms by (simp_all add: confirm_def confirm_states)

lemma confirm_IGNORE:
  assumes "RfDetConfirmSt s = IGNORE"
  shows "RfDetConfirmSt (confirm s) = (if RfLongDelay s = 0 then IDLE else IGNORE)"
    and "RfLongDelay (confirm s) = RfLongDelay s"
    and "Command (confirm s) = (if RfLongDelay s = 0 then FALSE else Command s)"
  using assms by (simp_all add: confirm_def confirm_states)

lemma main_loop_confirm [simp]:
  "RfDetConfirmSt (main_loop b s) = RfDetConfirmSt (confirm s)"
  "RfLongDelay (main_loop b s) = RfLongDelay (confirm s)"
  by (simp_all add: main_loop_def)

lemma countdown_tick:
  "countdown (RfLongDelay (Timer_A l s)) (Timer_A l s) = countdown (RfLongDelay s) s - 1"
proof (cases "RfLongDelay s = 0")
  case True
  then show ?thesis by (simp add: countdown_def Timer_A_long)
next
  case L: False
  show ?thesis
  proof (cases "RfPrescaler s = 0")
    case False
    then have "unat (RfPrescaler s - 1) = unat (RfPrescaler s) - 1" "0 < unat (RfPrescaler s)"
      by (simp_all add: unat_dec unat_gt_0)
    with L False show ?thesis by (simp add: countdown_def Timer_A_long)
  next
    case True
    from L have u: "unat (RfLongDelay s - 1) = unat (RfLongDelay s) - 1" "0 < unat (RfLongDelay s)"
      by (simp_all add: unat_dec unat_gt_0)
    show ?thesis
    proof (cases "RfLongDelay s - 1 = 0")
      case True
      with u have "unat (RfLongDelay s) = 1" by simp
      with True \<open>RfPrescaler s = 0\<close> L show ?thesis
        by (simp add: countdown_def Timer_A_long)
    next
      case False
      then have "unat (RfLongDelay s - 1) \<noteq> 0" by (simp add: unat_eq_zero)
      with u have "2 \<le> unat (RfLongDelay s)" by simp
      then obtain k where k: "unat (RfLongDelay s) = 2 + k"
        using nat_le_iff_add by blast
      with False \<open>RfPrescaler s = 0\<close> L u show ?thesis
        by (simp add: countdown_def Timer_A_long PRESCALER_def)
    qed
  qed
qed

lemma countdown_zero: "countdown L s = 0 \<longleftrightarrow> L = 0"
  by (simp add: countdown_def)

lemma countdown_cong: "RfPrescaler t = RfPrescaler s \<Longrightarrow> countdown L t = countdown L s"
  by (simp add: countdown_def)

lemma held_Cons: "held d (e # es) s \<Longrightarrow> ((RfDetected s \<noteq> 0) = d) \<and> held d es (exec e s)"
  by simp

lemma held_start: "held d es s \<Longrightarrow> (RfDetected s \<noteq> 0) = d"
  by (cases es) simp_all

lemma held_append: "held d (xs @ ys) s \<longleftrightarrow> held d xs s \<and> held d ys (run xs s)"
  by (induction xs arbitrary: s) (auto dest: held_start)

lemma confirmations_append: "confirmations (xs @ ys) s = confirmations xs s + confirmations ys (run xs s)"
  by (induction xs arbitrary: s) simp_all

lemma ticks_in_append: "ticks_in (xs @ ys) = ticks_in xs + ticks_in ys"
  by (induction xs rule: ticks_in.induct) simp_all

lemma countdown_fixed_tick: "countdown L s \<le> Suc (countdown L (Timer_A l s))"
proof (cases "RfPrescaler s = 0")
  case True
  then show ?thesis by (simp add: countdown_def Timer_A_long)
next
  case False
  then have "unat (RfPrescaler s - 1) = unat (RfPrescaler s) - 1" "0 < unat (RfPrescaler s)"
    by (simp_all add: unat_dec unat_gt_0)
  then have "unat (RfPrescaler s) = Suc (unat (RfPrescaler s - 1))" by arith
  with False show ?thesis by (simp add: countdown_def Timer_A_long)
qed

lemma countdown_fixed_less: "Suc n < countdown L s \<Longrightarrow> n < countdown L (Timer_A l s)"
  using countdown_fixed_tick [of L s l] by arith

lemma countdown_tick_less:
  "Suc n < countdown (RfLongDelay s) s \<Longrightarrow> n < countdown (RfLongDelay (Timer_A l s)) (Timer_A l s)"
  unfolding countdown_tick by arith

lemma countdown_tick_le:
  "countdown (RfLongDelay s) s \<le> Suc n \<Longrightarrow> countdown (RfLongDelay (Timer_A l s)) (Timer_A l s) \<le> n"
  unfolding countdown_tick by arith

lemma exec_confirm_state:
  "RfDetConfirmSt (exec (Tick l) s) = RfDetConfirmSt s"
  "RfDetConfirmSt (exec (Edge f l) s) = RfDetConfirmSt s"
  "RfLongDelay (exec (Edge f l) s) = RfLongDelay s"
  "RfPrescaler (exec (Edge f l) s) = RfPrescaler s"
  "RfPrescaler (exec (Loop b) s) = RfPrescaler s"
  "RfDetected (exec (Loop b) s) = RfDetected s"
  "RfDetected (exec (Edge f l) s) = RfDetected s"
  by simp_all

subsection \<open>While the flag is set\<close>

text \<open>A pulse too short for the validation countdown leaves the machine in \<open>IDLE\<close> or \<open>VALIDATE\<close>.\<close>

lemma pulse_short:
  "held True es s \<Longrightarrow>
   (RfDetConfirmSt s = IDLE \<and> ticks_in es < countdown VALIDATE_RF s)
     \<or> (RfDetConfirmSt s = VALIDATE \<and> ticks_in es < countdown (RfLongDelay s) s) \<Longrightarrow>
   confirmations es s = 0
   \<and> (RfDetConfirmSt (run es s) = IDLE \<or> RfDetConfirmSt (run es s) = VALIDATE)"
proof (induction es arbitrary: s)
  case Nil
  then show ?case by auto
next
  case (Cons e es)
  from Cons.prems(1) have det: "RfDetected s \<noteq> 0" and h: "held True es (exec e s)"
    by simp_all
  from Cons.prems(2) have st: "RfDetConfirmSt s = IDLE \<or> RfDetConfirmSt s = VALIDATE"
    by auto
  then have nw: "RfDetConfirmSt s \<noteq> WAITDETEND" by (auto simp: confirm_states)
  have next_ok: "(RfDetConfirmSt (exec e s) = IDLE \<and> ticks_in es < countdown VALIDATE_RF (exec e s))
     \<or> (RfDetConfirmSt (exec e s) = VALIDATE
          \<and> ticks_in es < countdown (RfLongDelay (exec e s)) (exec e s))"
  proof (cases e)
    case (Tick l)
    from Cons.prems(2) show ?thesis
    proof
      assume a: "RfDetConfirmSt s = IDLE \<and> ticks_in (e # es) < countdown VALIDATE_RF s"
      with Tick show ?thesis by (simp add: countdown_fixed_less)
    next
      assume a: "RfDetConfirmSt s = VALIDATE \<and> ticks_in (e # es) < countdown (RfLongDelay s) s"
      with Tick show ?thesis by (simp add: countdown_tick_less)
    qed
  next
    case (Edge f l)
    with Cons.prems(2) show ?thesis
      by (simp add: countdown_cong [of "Port1_isr l (s\<lparr>P1IFG := f\<rparr>)" s])
  next
    case (Loop b)
    have pre: "countdown L (main_loop b s) = countdown L s" for L
      by (rule countdown_cong) simp
    from Cons.prems(2) show ?thesis
    proof
      assume a: "RfDetConfirmSt s = IDLE \<and> ticks_in (e # es) < countdown VALIDATE_RF s"
      with Loop det show ?thesis
        by (simp add: confirm_IDLE pre)
    next
      assume a: "RfDetConfirmSt s = VALIDATE \<and> ticks_in (e # es) < countdown (RfLongDelay s) s"
      then have "RfLongDelay s \<noteq> 0" by (auto simp: countdown_def)
      with a Loop det show ?thesis
        by (simp add: confirm_VALIDATE pre)
    qed
  qed
  from Cons.IH [OF h next_ok] nw show ?case by simp
qed

text \<open>A pulse that outlasts the validation countdown is validated.\<close>

lemma pulse_long:
  "held True es s \<Longrightarrow>
   (RfDetConfirmSt s = VALIDATE \<and> countdown (RfLongDelay s) s \<le> ticks_in es)
     \<or> RfDetConfirmSt s = WAITDETEND \<Longrightarrow>
   confirmations es s = 0
   \<and> ((RfDetConfirmSt (run es s) = VALIDATE \<and> RfLongDelay (run es s) = 0)
      \<or> RfDetConfirmSt (run es s) = WAITDETEND)"
proof (induction es arbitrary: s)
  case Nil
  then show ?case by (auto simp: countdown_zero)
next
  case (Cons e es)
  from Cons.prems(1) have det: "RfDetected s \<noteq> 0" and h: "held True es (exec e s)"
    by simp_all
  have no_cmd: "\<not> (RfDetConfirmSt s = WAITDETEND \<and> RfDetConfirmSt (exec e s) = IGNORE)"
  proof (cases e)
    case (Loop b)
    with det show ?thesis by (auto simp: confirm_WAITDETEND confirm_states)
  next
    case (Tick l)
    then show ?thesis by (auto simp: confirm_states)
  next
    case (Edge f l)
    then show ?thesis by (auto simp: confirm_states)
  qed
  have next_ok: "(RfDetConfirmSt (exec e s) = VALIDATE
        \<and> countdown (RfLongDelay (exec e s)) (exec e s) \<le> ticks_in es)
     \<or> RfDetConfirmSt (exec e s) = WAITDETEND"
  proof (cases e)
    case (Tick l)
    with Cons.prems(2) show ?thesis by (auto simp: countdown_tick_le)
  next
    case (Edge f l)
    with Cons.prems(2) show ?thesis
      by (auto simp: countdown_cong [of "Port1_isr l (s\<lparr>P1IFG := f\<rparr>)" s])
  next
    case (Loop b)
    have pre: "countdown L (main_loop b s) = countdown L s" for L
      by (rule countdown_cong) simp
    from Cons.prems(2) show ?thesis
    proof
      assume "RfDetConfirmSt s = VALIDATE \<and> countdown (RfLongDelay s) s \<le> ticks_in (e # es)"
      with Loop det show ?thesis by (simp add: confirm_VALIDATE pre)
    next
      assume "RfDetConfirmSt s = WAITDETEND"
      with Loop det show ?thesis by (simp add: confirm_WAITDETEND)
    qed
  qed
  from Cons.IH [OF h next_ok] no_cmd show ?case by simp
qed

subsection \<open>While the flag is clear\<close>

lemma absent_idle:
  "held False es s \<Longrightarrow> RfDetConfirmSt s = IDLE \<or> RfDetConfirmSt s = VALIDATE \<Longrightarrow>
   confirmations es s = 0
   \<and> (RfDetConfirmSt (run es s) = IDLE \<or> RfDetConfirmSt (run es s) = VALIDATE)"
proof (induction es arbitrary: s)
  case Nil
  then show ?case by simp
next
  case (Cons e es)
  from Cons.prems(1) have det: "RfDetected s = 0" and h: "held False es (exec e s)"
    by simp_all
  from Cons.prems(2) have nw: "RfDetConfirmSt s \<noteq> WAITDETEND" by (auto simp: confirm_states)
  have "RfDetConfirmSt (exec e s) = IDLE \<or> RfDetConfirmSt (exec e s) = VALIDATE"
    using Cons.prems(2) det by (cases e) (auto simp: confirm_IDLE confirm_VALIDATE)
  from Cons.IH [OF h this] nw show ?case by simp
qed

lemma absent_ignore:
  "held False es s \<Longrightarrow> RfDetConfirmSt s = IGNORE \<or> RfDetConfirmSt s = IDLE \<Longrightarrow>
   confirmations es s = 0"
proof (induction es arbitrary: s)
  case Nil
  then show ?case by simp
next
  case (Cons e es)
  from Cons.prems(1) have det: "RfDetected s = 0" and h: "held False es (exec e s)"
    by simp_all
  from Cons.prems(2) have nw: "RfDetConfirmSt s \<noteq> WAITDETEND" by (auto simp: confirm_states)
  have "RfDetConfirmSt (exec e s) = IGNORE \<or> RfDetConfirmSt (exec e s) = IDLE"
    using Cons.prems(2) det by (cases e) (auto simp: confirm_IDLE confirm_IGNORE)
  from Cons.IH [OF h this] nw show ?case by simp
qed

lemma held_snoc_Loop: "held d es s \<Longrightarrow> held d (es @ [Loop b]) s"
  by (induction es arbitrary: s) simp_all

text \<open>An absence that outlasts the wait-end countdown gives exactly one confirmation.\<close>

lemma absent_long:
  "held False es s \<Longrightarrow> RfDetConfirmSt s = WAITDETEND \<Longrightarrow>
   countdown (RfLongDelay s) s \<le> ticks_in es \<Longrightarrow>
   confirmations (es @ [Loop b]) s = 1"
proof (induction es arbitrary: s)
  case Nil
  then have "RfDetected s = 0" "RfLongDelay s = 0" by (simp_all add: countdown_zero)
  with Nil.prems(2) show ?case by (simp add: confirm_WAITDETEND)
next
  case (Cons e es)
  from Cons.prems(1) have det: "RfDetected s = 0" and h: "held False es (exec e s)"
    by simp_all
  show ?case
  proof (cases e)
    case (Tick l)
    with Cons.prems
    have "RfDetConfirmSt (exec e s) = WAITDETEND"
      "countdown (RfLongDelay (exec e s)) (exec e s) \<le> ticks_in es"
      by (simp_all add: countdown_tick_le)
    from Cons.IH [OF h this] Tick Cons.prems(2) show ?thesis
      by (simp add: confirm_states)
  next
    case (Edge f l)
    with Cons.prems
    have "RfDetConfirmSt (exec e s) = WAITDETEND"
      "countdown (RfLongDelay (exec e s)) (exec e s) \<le> ticks_in es"
      by (simp_all add: countdown_cong [of "Port1_isr l (s\<lparr>P1IFG := f\<rparr>)" s])
    from Cons.IH [OF h this] Edge Cons.prems(2) show ?thesis
      by (simp add: confirm_states)
  next
    case (Loop b')
    have pre: "countdown L (main_loop b' s) = countdown L s" for L
      by (rule countdown_cong) simp
    show ?thesis
    proof (cases "RfLongDelay s = 0")
      case True
      with Cons.prems(2) det Loop have ig: "RfDetConfirmSt (exec e s) = IGNORE"
        by (simp add: confirm_WAITDETEND)
      from h have "held False (es @ [Loop b]) (exec e s)" by (rule held_snoc_Loop)
      from absent_ignore [OF this] ig have "confirmations (es @ [Loop b]) (exec e s) = 0" by simp
      with ig Cons.prems(2) show ?thesis by simp
    next
      case False
      with Cons.prems det Loop
      have "RfDetConfirmSt (exec e s) = WAITDETEND"
        "countdown (RfLongDelay (exec e s)) (exec e s) \<le> ticks_in es"
        by (simp_all add: confirm_WAITDETEND pre)
      from Cons.IH [OF h this] this(1) show ?thesis
        by (simp add: confirm_states)
    qed
  qed
qed

subsection \<open>While commands are ignored\<close>

lemma ignoring:
  "RfDetConfirmSt s = IGNORE \<Longrightarrow> ticks_in es < countdown (RfLongDelay s) s \<Longrightarrow>
   confirmations es s = 0 \<and> RfDetConfirmSt (run es s) = IGNORE"
proof (induction es arbitrary: s)
  case Nil
  then show ?case by simp
next
  case (Cons e es)
  from Cons.prems(1) have nw: "RfDetConfirmSt s \<noteq> WAITDETEND" by (simp add: confirm_states)
  have "RfDetConfirmSt (exec e s) = IGNORE
    \<and> ticks_in es < countdown (RfLongDelay (exec e s)) (exec e s)"
  proof (cases e)
    case (Tick l)
    with Cons.prems show ?thesis by (simp add: countdown_tick_less)
  next
    case (Edge f l)
    with Cons.prems show ?thesis
      by (simp add: countdown_cong [of "Port1_isr l (s\<lparr>P1IFG := f\<rparr>)" s])
  next
    case (Loop b)
    have pre: "countdown L (main_loop b s) = countdown L s" for L
      by (rule countdown_cong) simp
    from Cons.prems have "RfLongDelay s \<noteq> 0" by (auto simp: countdown_def)
    with Cons.prems Loop show ?thesis by (simp add: confirm_IGNORE pre)
  qed
  with Cons.IH [of "exec e s"] nw show ?case by simp
qed

subsection \<open>The return to \<open>IDLE\<close>\<close>

lemma absent_stays_idle:
  "held False es s \<Longrightarrow> RfDetConfirmSt s = IDLE \<Longrightarrow> RfDetConfirmSt (run es s) = IDLE"
proof (induction es arbitrary: s)
  case Nil
  then show ?case by simp
next
  case (Cons e es)
  from Cons.prems(1) have det: "RfDetected s = 0" and h: "held False es (exec e s)"
    by simp_all
  have "RfDetConfirmSt (exec e s) = IDLE"
    using Cons.prems(2) det by (cases e) (simp_all add: confirm_IDLE)
  from Cons.IH [OF h this] show ?case by simp
qed

text \<open>The first loop pass that finds the flag clear takes the machine back to \<open>IDLE\<close>.\<close>

lemma absent_sampled:
  "held False es s \<Longrightarrow> RfDetConfirmSt s = IDLE \<or> RfDetConfirmSt s = VALIDATE \<Longrightarrow>
   0 < loops_in es \<Longrightarrow> RfDetConfirmSt (run es s) = IDLE"
proof (induction es arbitrary: s)
  case Nil
  then show ?case by simp
next
  case (Cons e es)
  from Cons.prems(1) have det: "RfDetected s = 0" and h: "held False es (exec e s)"
    by simp_all
  show ?case
  proof (cases e)
    case (Loop b)
    with Cons.prems(2) det have "RfDetConfirmSt (exec e s) = IDLE"
      by (auto simp: confirm_IDLE confirm_VALIDATE)
    from absent_stays_idle [OF h this] show ?thesis by simp
  next
    case (Tick l)
    with Cons.prems have "RfDetConfirmSt (exec e s) = IDLE \<or> RfDetConfirmSt (exec e s) = VALIDATE"
      "0 < loops_in es"
      by simp_all
    from Cons.IH [OF h this] show ?thesis by simp
  next
    case (Edge f l)
    with Cons.prems have "RfDetConfirmSt (exec e s) = IDLE \<or> RfDetConfirmSt (exec e s) = VALIDATE"
      "0 < loops_in es"
      by simp_all
    from Cons.IH [OF h this] show ?thesis by simp
  qed
qed

subsection \<open>The flag \<open>Command\<close>\<close>

lemma positioning_Command_kept:
  "Command (positioning b s) = Command s \<or> Command (positioning b s) = FALSE"
  by (cases s rule: moving_cases)
    (auto simp: positioning_MOVINGUP positioning_MOVINGDOWN positioning_WAITINGUP
       positioning_WAITINGDOWN positioning_rest Let_def)

lemma positioning_Command_TRUE: "Command (positioning b s) = TRUE \<Longrightarrow> Command s = TRUE"
  using positioning_Command_kept [of b s] by (auto simp: bool_consts)

lemma confirm_Command_cases:
  "Command (confirm s) = Command s \<or> Command (confirm s) = FALSE
   \<or> (RfDetConfirmSt s = WAITDETEND \<and> RfDetConfirmSt (confirm s) = IGNORE)"
  by (auto simp: confirm_def confirm_states)

lemma confirm_Command_TRUE:
  "Command (confirm s) = TRUE \<Longrightarrow>
   Command s = TRUE \<or> (RfDetConfirmSt s = WAITDETEND \<and> RfDetConfirmSt (confirm s) = IGNORE)"
  using confirm_Command_cases [of s] by (auto simp: bool_consts)

lemma confirm_assigns_TRUE:
  "RfDetConfirmSt s = WAITDETEND \<Longrightarrow> RfDetConfirmSt (confirm s) = IGNORE \<Longrightarrow>
   Command (confirm s) = TRUE \<and> RfLongDelay (confirm s) = IGNORE_RF"
  by (auto simp: confirm_WAITDETEND confirm_states split: if_splits)

lemma exec_Command_cases:
  "Command (exec e s) = Command s \<or> Command (exec e s) = FALSE
   \<or> (RfDetConfirmSt s = WAITDETEND \<and> RfDetConfirmSt (exec e s) = IGNORE)"
proof (cases e)
  case (Loop b)
  with positioning_Command_kept [of b "confirm s"] confirm_Command_cases [of s] show ?thesis
    by (auto simp: main_loop_def)
qed simp_all

lemma unconfirmed_Command:
  "Command s = FALSE \<Longrightarrow> confirmations es s = 0 \<Longrightarrow> Command (run es s) = FALSE"
proof (induction es arbitrary: s)
  case Nil
  then show ?case by simp
next
  case (Cons e es)
  from Cons.prems(2) have n: "\<not> (RfDetConfirmSt s = WAITDETEND \<and> RfDetConfirmSt (exec e s) = IGNORE)"
    and c: "confirmations es (exec e s) = 0"
    by (simp_all split: if_splits)
  from exec_Command_cases [of e s] n Cons.prems(1) have "Command (exec e s) = FALSE" by auto
  from Cons.IH [OF this c] show ?case by simp
qed

text \<open>
  Outside \<open>IGNORE\<close> the flag is not \<open>TRUE\<close>; where that holds, the passes in which
  \<open>Command\<close> becomes true are the transitions from \<open>WAITDETEND\<close> to \<open>IGNORE\<close>.
\<close>

lemma cmd_inv_exec:
  assumes "RfDetConfirmSt s = IGNORE \<or> Command s \<noteq> TRUE"
  shows "RfDetConfirmSt (exec e s) = IGNORE \<or> Command (exec e s) \<noteq> TRUE"
proof (cases e)
  case (Loop b)
  show ?thesis
  proof (rule ccontr)
    assume "\<not> ?thesis"
    with Loop have ni: "RfDetConfirmSt (confirm s) \<noteq> IGNORE" and t: "Command (main_loop b s) = TRUE"
      by simp_all
    from t have ct: "Command (confirm s) = TRUE"
      by (simp add: main_loop_def positioning_Command_TRUE)
    from confirm_Command_TRUE [OF this] ni have "Command s = TRUE" by simp
    with assms have ig: "RfDetConfirmSt s = IGNORE" by simp
    from confirm_IGNORE [OF ig] ni ct show False
      by (auto simp: bool_consts confirm_states split: if_splits)
  qed
next
  case (Tick l)
  with assms show ?thesis by simp
next
  case (Edge f l)
  with assms show ?thesis by simp
qed

lemma commands_confirmations:
  "RfDetConfirmSt s = IGNORE \<or> Command s \<noteq> TRUE \<Longrightarrow> commands es s = confirmations es s"
proof (induction es arbitrary: s)
  case Nil
  then show ?case by simp
next
  case (Cons e es)
  note ih = Cons.IH [OF cmd_inv_exec [OF Cons.prems, of e]]
  show ?case
  proof (cases e)
    case (Loop b)
    have "(Command s \<noteq> TRUE \<and> Command (confirm s) = TRUE)
      \<longleftrightarrow> (RfDetConfirmSt s = WAITDETEND \<and> RfDetConfirmSt (confirm s) = IGNORE)"
    proof
      assume "Command s \<noteq> TRUE \<and> Command (confirm s) = TRUE"
      with confirm_Command_TRUE [of s]
      show "RfDetConfirmSt s = WAITDETEND \<and> RfDetConfirmSt (confirm s) = IGNORE" by simp
    next
      assume a: "RfDetConfirmSt s = WAITDETEND \<and> RfDetConfirmSt (confirm s) = IGNORE"
      with Cons.prems have "Command s \<noteq> TRUE" by (auto simp: confirm_states)
      with a confirm_assigns_TRUE [of s]
      show "Command s \<noteq> TRUE \<and> Command (confirm s) = TRUE" by simp
    qed
    with ih Loop show ?thesis by simp
  next
    case (Tick l)
    with ih show ?thesis by (simp add: confirm_states)
  next
    case (Edge f l)
    with ih show ?thesis by (simp add: confirm_states)
  qed
qed

subsection \<open>Executions without a loop pass\<close>

lemma loops_in_append: "loops_in (xs @ ys) = loops_in xs + loops_in ys"
  by (induction xs rule: loops_in.induct) simp_all

lemma loops_in_ticks [simp]: "loops_in (replicate n (Tick l)) = 0"
  by (induction n) simp_all

lemma isr_run:
  "loops_in es = 0 \<Longrightarrow>
   RfDetConfirmSt (run es s) = RfDetConfirmSt s \<and> Command (run es s) = Command s
   \<and> Pwm1_State (run es s) = Pwm1_State s \<and> confirmations es s = 0
   \<and> countdown (RfLongDelay (run es s)) (run es s) = countdown (RfLongDelay s) s - ticks_in es"
proof (induction es arbitrary: s)
  case Nil
  then show ?case by simp
next
  case (Cons e es)
  show ?case
  proof (cases e)
    case (Loop b)
    with Cons.prems show ?thesis by simp
  next
    case (Tick l)
    with Cons.prems have "loops_in es = 0" by simp
    from Cons.IH [OF this, of "exec e s"] Tick countdown_tick [of l s] show ?thesis
      by (simp add: confirm_states)
  next
    case (Edge f l)
    with Cons.prems have "loops_in es = 0" by simp
    from Cons.IH [OF this, of "exec e s"] Edge show ?thesis
      by (simp add: confirm_states countdown_cong [of "Port1_isr l (s\<lparr>P1IFG := f\<rparr>)" s])
  qed
qed

subsection \<open>The prescaler\<close>

lemma prescaler_exec: "RfPrescaler s \<le> PRESCALER \<Longrightarrow> RfPrescaler (exec e s) \<le> PRESCALER"
proof (cases e)
  case (Tick l)
  assume a: "RfPrescaler s \<le> PRESCALER"
  have "RfPrescaler s \<noteq> 0 \<Longrightarrow> RfPrescaler s - 1 \<le> RfPrescaler s"
    using step_down [of "RfPrescaler s" 0] by simp
  with a Tick show ?thesis by (auto simp: Timer_A_long)
qed simp_all

lemma prescaler_run: "RfPrescaler s \<le> PRESCALER \<Longrightarrow> RfPrescaler (run es s) \<le> PRESCALER"
  by (induction es arbitrary: s) (simp_all add: prescaler_exec)

lemma countdown_bound:
  "RfPrescaler s \<le> PRESCALER \<Longrightarrow> countdown L s \<le> unat L * (unat PRESCALER + 1)"
proof (cases "L = 0")
  case True
  then show ?thesis by (simp add: countdown_def)
next
  case False
  assume "RfPrescaler s \<le> PRESCALER"
  then have p: "unat (RfPrescaler s) \<le> unat PRESCALER" by (simp add: word_le_nat_alt)
  from False obtain k where k: "unat L = Suc k"
    by (metis unat_gt_0 gr0_implies_Suc)
  from False p show ?thesis by (simp add: countdown_def k)
qed

lemma countdown_lower: "L \<noteq> 0 \<Longrightarrow> (unat L - 1) * (unat PRESCALER + 1) + 1 \<le> countdown L s"
  by (simp add: countdown_def)

text \<open>The prescaler counts the ticks modulo \<open>PRESCALER + 1\<close>.\<close>

lemma prescaler_tick:
  assumes "unat (RfPrescaler s) \<le> 100"
  shows "unat (RfPrescaler (Timer_A l s)) \<le> 100
    \<and> 100 - unat (RfPrescaler (Timer_A l s)) = Suc (100 - unat (RfPrescaler s)) mod 101"
proof (cases "RfPrescaler s = 0")
  case True
  then show ?thesis by (simp add: Timer_A_long PRESCALER_def)
next
  case False
  then have "Suc (unat (RfPrescaler s - 1)) = unat (RfPrescaler s)"
    using step_down [of "RfPrescaler s" 0] by simp
  with assms False show ?thesis
    by (simp add: Timer_A_long)
qed

lemma prescaler_phase:
  "unat (RfPrescaler s) \<le> 100 \<Longrightarrow>
   unat (RfPrescaler (run es s)) \<le> 100
   \<and> 100 - unat (RfPrescaler (run es s)) = (100 - unat (RfPrescaler s) + ticks_in es) mod 101"
proof (induction es arbitrary: s)
  case Nil
  then show ?case by simp
next
  case (Cons e es)
  show ?case
  proof (cases e)
    case (Tick l)
    from prescaler_tick [OF Cons.prems, of l]
    have a: "unat (RfPrescaler (Timer_A l s)) \<le> 100"
      and b: "100 - unat (RfPrescaler (Timer_A l s)) = Suc (100 - unat (RfPrescaler s)) mod 101"
      by simp_all
    from Cons.IH [OF a] b Tick show ?thesis
      by (simp add: mod_add_left_eq)
  next
    case (Loop b)
    with Cons show ?thesis by simp
  next
    case (Edge f l)
    with Cons show ?thesis by simp
  qed
qed

subsection \<open>The earliest next command\<close>

lemma confirm_other:
  "RfDetConfirmSt s \<noteq> IDLE \<Longrightarrow> RfDetConfirmSt s \<noteq> VALIDATE \<Longrightarrow>
   RfDetConfirmSt s \<noteq> WAITDETEND \<Longrightarrow> RfDetConfirmSt s \<noteq> IGNORE \<Longrightarrow>
   RfDetConfirmSt (confirm s) = IDLE"
  by (simp add: confirm_def)

lemma countdown_0 [simp]: "countdown 0 s = 0"
  by (simp add: countdown_def)

lemma earliest_tick: "earliest s \<le> Suc (earliest (Timer_A l s))"
proof -
  let ?c = "countdown (RfLongDelay s) s"
  have a: "min w ?c \<le> Suc (min w (?c - 1))" for w by arith
  have b: "min v ?c + w \<le> Suc (min v (?c - 1) + w)" for v w by arith
  have c: "?c + v + w \<le> Suc (?c - 1 + v + w)" for v w by arith
  show ?thesis
    unfolding earliest_def Let_def countdown_tick Timer_A_keeps
    by (simp only: a b c le_SucI order_refl split: if_split) simp
qed

lemma earliest_cong:
  "RfDetConfirmSt t = RfDetConfirmSt s \<Longrightarrow> RfLongDelay t = RfLongDelay s \<Longrightarrow>
   RfPrescaler t = RfPrescaler s \<Longrightarrow> earliest t = earliest s"
  by (simp add: earliest_def countdown_def)

lemma earliest_edge: "earliest (Port1_isr l (s\<lparr>P1IFG := f\<rparr>)) = earliest s"
  using exec_confirm_state(2-4) [of f l s] by (intro earliest_cong) simp_all

lemma earliest_loop: "earliest s \<le> earliest (main_loop b s)"
proof -
  have pre: "countdown L (main_loop b s) = countdown L s" for L
    by (rule countdown_cong) simp
  have v: "(unat VALIDATE_RF - 1) * (unat PRESCALER + 1) + 1 \<le> countdown VALIDATE_RF s"
    by (rule countdown_lower) (simp add: rf_consts)
  have w: "(unat WAITEND_RF - 1) * (unat PRESCALER + 1) + 1 \<le> countdown WAITEND_RF s"
    by (rule countdown_lower) (simp add: rf_consts)
  consider "RfDetConfirmSt s = IDLE" | "RfDetConfirmSt s = VALIDATE"
    | "RfDetConfirmSt s = WAITDETEND" | "RfDetConfirmSt s = IGNORE"
    | "RfDetConfirmSt s \<noteq> IDLE" "RfDetConfirmSt s \<noteq> VALIDATE"
      "RfDetConfirmSt s \<noteq> WAITDETEND" "RfDetConfirmSt s \<noteq> IGNORE"
    by blast
  then show ?thesis
  proof cases
    case 1
    with v show ?thesis
      by (simp add: earliest_def Let_def pre confirm_IDLE confirm_states)
  next
    case 2
    with w show ?thesis
      by (simp add: earliest_def Let_def pre confirm_VALIDATE confirm_states min_absorb1)
  next
    case 3
    with w show ?thesis
      by (simp add: earliest_def Let_def pre confirm_WAITDETEND confirm_states min_absorb1
          min.coboundedI1)
  next
    case 4
    then show ?thesis
      by (simp add: earliest_def Let_def pre confirm_IGNORE confirm_states)
  next
    case 5
    with confirm_other [of s] show ?thesis
      by (simp add: earliest_def Let_def confirm_states)
  qed
qed

lemma earliest_zero:
  assumes "RfDetConfirmSt s = WAITDETEND" "RfDetConfirmSt (exec e s) = IGNORE"
  shows "earliest s = 0"
proof (cases e)
  case (Loop b)
  with assms have "RfLongDelay s = 0"
    by (auto simp: confirm_WAITDETEND confirm_states split: if_splits)
  with assms(1) show ?thesis by (simp add: earliest_def)
next
  case (Tick l)
  with assms show ?thesis by (simp add: confirm_states)
next
  case (Edge f l)
  with assms show ?thesis by (simp add: confirm_states)
qed

text \<open>No command is confirmed before \<open>earliest s\<close> timer interrupts have passed.\<close>

lemma quiet_until: "ticks_in es < earliest s \<Longrightarrow> confirmations es s = 0"
proof (induction es arbitrary: s)
  case Nil
  then show ?case by simp
next
  case (Cons e es)
  from Cons.prems have "earliest s \<noteq> 0" by simp
  with earliest_zero [of s e]
  have nc: "\<not> (RfDetConfirmSt s = WAITDETEND \<and> RfDetConfirmSt (exec e s) = IGNORE)" by blast
  have "ticks_in es < earliest (exec e s)"
  proof (cases e)
    case (Loop b)
    with Cons.prems earliest_loop [of s b] show ?thesis by simp
  next
    case (Tick l)
    with Cons.prems earliest_tick [of s l] show ?thesis by simp
  next
    case (Edge f l)
    with Cons.prems show ?thesis by (simp add: earliest_edge)
  qed
  from Cons.IH [OF this] nc show ?case by simp
qed

subsection \<open>A short pulse, and a long pulse followed by a long absence\<close>

lemma short_pulse:
  assumes "RfDetConfirmSt s = IDLE" "held True esA s"
    "ticks_in esA < (unat VALIDATE_RF - 1) * (unat PRESCALER + 1) + 1"
    "held False esB (exec (Tick l) (run esA s))"
  shows "confirmations (esA @ Tick l # esB) s = 0"
    and "0 < loops_in esB \<Longrightarrow> RfDetConfirmSt (run (esA @ Tick l # esB) s) = IDLE"
proof -
  have "(unat VALIDATE_RF - 1) * (unat PRESCALER + 1) + 1 \<le> countdown VALIDATE_RF s"
    by (rule countdown_lower) (simp add: rf_consts)
  with assms(3) have "ticks_in esA < countdown VALIDATE_RF s" by simp
  with pulse_short [of esA s] assms(1,2)
  have p: "confirmations esA s = 0"
    "RfDetConfirmSt (run esA s) = IDLE \<or> RfDetConfirmSt (run esA s) = VALIDATE"
    by simp_all
  let ?t = "exec (Tick l) (run esA s)"
  from p(2) have st: "RfDetConfirmSt ?t = IDLE \<or> RfDetConfirmSt ?t = VALIDATE" by simp
  from absent_idle [OF assms(4) st] have q: "confirmations esB ?t = 0" by simp
  from p(2) have "RfDetConfirmSt (run esA s) \<noteq> WAITDETEND" by (auto simp: confirm_states)
  with p(1) q show "confirmations (esA @ Tick l # esB) s = 0"
    by (simp add: confirmations_append)
  assume "0 < loops_in esB"
  from absent_sampled [OF assms(4) st this]
  show "RfDetConfirmSt (run (esA @ Tick l # esB) s) = IDLE"
    by (simp add: run_append)
qed

lemma confirmed_once:
  assumes "RfDetConfirmSt s = IDLE" "Pwm1_State s = POSIT"
    "held True (Loop b0 # esA @ [Loop b1]) s"
    "countdown VALIDATE_RF s \<le> ticks_in esA"
    "held False (esB @ [Loop b2]) (exec (Tick l) (run (Loop b0 # esA @ [Loop b1]) s))"
    "countdown WAITEND_RF (run (Loop b0 # esA @ [Loop b1]) s) \<le> ticks_in esB"
  shows "confirmations (Loop b0 # esA @ [Loop b1] @ Tick l # esB @ [Loop b2]) s = 1"
proof -
  let ?s1 = "exec (Loop b0) s"
  let ?s2 = "run esA ?s1"
  let ?t = "exec (Loop b1) ?s2"
  let ?t' = "exec (Tick l) ?t"
  from assms(3) have det: "RfDetected s \<noteq> 0" and hA: "held True esA ?s1"
    and hL: "held True [Loop b1] ?s2"
    by (simp_all add: held_append)
  from assms(1,2) det have s1: "RfDetConfirmSt ?s1 = VALIDATE" "RfLongDelay ?s1 = VALIDATE_RF"
    by (simp_all add: confirm_IDLE)
  have "countdown VALIDATE_RF ?s1 = countdown VALIDATE_RF s"
    by (rule countdown_cong) simp
  with assms(4) s1
  have "RfDetConfirmSt ?s1 = VALIDATE \<and> countdown (RfLongDelay ?s1) ?s1 \<le> ticks_in esA"
    by simp
  with pulse_long [OF hA] have c2: "confirmations esA ?s1 = 0"
    and s2: "(RfDetConfirmSt ?s2 = VALIDATE \<and> RfLongDelay ?s2 = 0) \<or> RfDetConfirmSt ?s2 = WAITDETEND"
    by simp_all
  from hL have det2: "RfDetected ?s2 \<noteq> 0" by simp
  from s2 det2 have t: "RfDetConfirmSt ?t = WAITDETEND" "RfLongDelay ?t = WAITEND_RF"
    by (auto simp: confirm_VALIDATE confirm_WAITDETEND)
  have run_t: "run (Loop b0 # esA @ [Loop b1]) s = ?t"
    by (simp add: run_append)
  from assms(6) have w: "countdown (RfLongDelay ?t) ?t \<le> ticks_in esB"
    by (simp only: run_t t)
  have t': "RfDetConfirmSt ?t' = WAITDETEND" using t by simp
  have "countdown (RfLongDelay ?t') ?t' \<le> countdown (RfLongDelay ?t) ?t"
    using countdown_tick [of l ?t] by simp
  with w have w': "countdown (RfLongDelay ?t') ?t' \<le> ticks_in esB" by simp
  from assms(5) have "held False esB ?t'"
    by (simp only: run_t held_append)
  from absent_long [OF this t' w', of b2] have c3: "confirmations (esB @ [Loop b2]) ?t' = 1" .
  have c0: "\<not> (RfDetConfirmSt s = WAITDETEND \<and> RfDetConfirmSt ?s1 = IGNORE)"
    using assms(1) by (simp add: confirm_states)
  have "confirmations (Loop b0 # esA @ [Loop b1] @ Tick l # esB @ [Loop b2]) s
      = confirmations (esA @ [Loop b1] @ Tick l # esB @ [Loop b2]) ?s1"
    using c0 by simp
  also have "\<dots> = confirmations esA ?s1 + confirmations ([Loop b1] @ Tick l # esB @ [Loop b2]) ?s2"
    by (simp only: confirmations_append)
  also have "\<dots> = confirmations (esB @ [Loop b2]) ?t'"
    using c2 t t' by (simp add: confirm_states)
  finally show ?thesis using c3 by simp
qed

lemma ignored:
  assumes "Command u \<noteq> TRUE" "Command (confirm u) = TRUE"
  shows "RfDetConfirmSt (main_loop b u) = IGNORE"
    and "unat IGNORE_RF * (unat PRESCALER + 1) \<le> earliest (main_loop b u)"
proof -
  from confirm_Command_TRUE [OF assms(2)] assms(1)
  have st: "RfDetConfirmSt u = WAITDETEND" "RfDetConfirmSt (confirm u) = IGNORE" by simp_all
  then show ig: "RfDetConfirmSt (main_loop b u) = IGNORE" by simp
  from confirm_assigns_TRUE [OF st] have "RfLongDelay (main_loop b u) = IGNORE_RF" by simp
  moreover have "(unat IGNORE_RF - 1) * (unat PRESCALER + 1) + 1
      \<le> countdown IGNORE_RF (main_loop b u)"
    by (rule countdown_lower) (simp add: rf_consts)
  ultimately show "unat IGNORE_RF * (unat PRESCALER + 1) \<le> earliest (main_loop b u)"
    using ig by (simp add: earliest_def Let_def confirm_states rf_consts)
qed


subsection \<open>Concrete pulses\<close>

lemma tick_quiet:
  "RfDetState s = IDLE \<or> (RfDetState s = DETEND \<and> \<not> l) \<Longrightarrow>
   RfDetected (Timer_A l s) = RfDetected s \<and> RfDetState (Timer_A l s) = RfDetState s"
  by (auto simp: Timer_A_det rf_detect_def Let_def det_states)

lemma ticks_quiet:
  "RfDetState s = IDLE \<or> (RfDetState s = DETEND \<and> \<not> l) \<Longrightarrow>
   held d (replicate n (Tick l)) s = ((RfDetected s \<noteq> 0) = d)
   \<and> RfDetected (run (replicate n (Tick l)) s) = RfDetected s
   \<and> RfDetState (run (replicate n (Tick l)) s) = RfDetState s"
proof (induction n arbitrary: s)
  case 0
  then show ?case by simp
next
  case (Suc n)
  from tick_quiet [OF Suc.prems]
  have q: "RfDetected (Timer_A l s) = RfDetected s" "RfDetState (Timer_A l s) = RfDetState s"
    by simp_all
  with Suc.prems have "RfDetState (Timer_A l s) = IDLE \<or> (RfDetState (Timer_A l s) = DETEND \<and> \<not> l)"
    by simp
  from Suc.IH [OF this] q show ?case by auto
qed

lemma ticks_keep:
  "Pwm1_State (run (replicate n (Tick l)) s) = Pwm1_State s
   \<and> Command (run (replicate n (Tick l)) s) = Command s
   \<and> RfDetConfirmSt (run (replicate n (Tick l)) s) = RfDetConfirmSt s"
  by (induction n arbitrary: s) simp_all

lemma held_ticks:
  "(\<And>k. k \<le> n \<Longrightarrow> RfDetected (run (replicate k (Tick l)) s) = RfDetected s) \<Longrightarrow>
   (RfDetected s \<noteq> 0) = d \<Longrightarrow> held d (replicate n (Tick l)) s"
proof (induction n arbitrary: s)
  case 0
  then show ?case by simp
next
  case (Suc n)
  from Suc.prems(1) [of "Suc 0"] have t: "RfDetected (Timer_A l s) = RfDetected s" by simp
  have "RfDetected (run (replicate k (Tick l)) (Timer_A l s)) = RfDetected (Timer_A l s)"
    if "k \<le> n" for k
    using Suc.prems(1) [of "Suc k"] that t by simp
  from Suc.IH [OF this] t Suc.prems(2) show ?case by simp
qed

lemma edge_arms:
  "RfDetState (exec (Edge BIT6 True) s) = DETHIGH"
  "RfDetCounter (exec (Edge BIT6 True) s) = 0"
  by (simp_all add: Port1_isr_def Let_def bit_consts)

text \<open>
  One period of the carrier leaves \<open>RfDetected\<close> as it is; the HIGH read after it sets
  the flag.
\<close>

lemma carrier_run:
  assumes "Pwm1_State s = POSIT" "(RfDetected s \<noteq> 0) = d"
  shows "held d carrier s"
    and "RfDetected (run (carrier @ [Tick True]) s) = TRUE"
    and "RfDetState (run (carrier @ [Tick True]) s) = DETEND"
proof -
  let ?e = "exec (Edge BIT6 True) s"
  let ?h = "run (replicate 625 (Tick True)) ?e"
  let ?d = "Timer_A False ?h"
  let ?b = "run (replicate 625 (Tick True) @ replicate 624 (Tick False)) ?e"
  have e: "Pwm1_State ?e = POSIT" "RfDetState ?e = DETHIGH" "RfDetCounter ?e = 0"
    "RfDetected ?e = RfDetected s"
    using assms(1) by (simp_all add: edge_arms [simplified])
  have hh: "held d (replicate 625 (Tick True)) ?e"
  proof (rule held_ticks)
    fix k :: nat
    assume "k \<le> 625"
    with high_run [OF e(1,2), of k] e(3)
    show "RfDetected (run (replicate k (Tick True)) ?e) = RfDetected ?e" by simp
  next
    from assms(2) e(4) show "(RfDetected ?e \<noteq> 0) = d" by simp
  qed
  from high_run [OF e(1,2), of 625] e(3,4)
  have h: "Pwm1_State ?h = POSIT" "RfDetState ?h = DETHIGH" "unat (RfDetCounter ?h) = 625"
    "RfDetected ?h = RfDetected s"
    by simp_all
  from h(3) have hc: "RfDetCounter ?h = 625"
    using word_unat_eq_iff [of "RfDetCounter ?h" 625] by simp
  note t = tick_DETHIGH [OF h(1,2), of False]
  have dd: "Pwm1_State ?d = POSIT" "RfDetState ?d = DETLOW" "RfDetCounter ?d = 0"
    "RfDetected ?d = RfDetected s"
    using t hc h(4) by (simp_all add: rf_consts)
  have hl: "held d (replicate 624 (Tick False)) ?h"
  proof (rule held_ticks)
    fix k :: nat
    assume k: "k \<le> 624"
    show "RfDetected (run (replicate k (Tick False)) ?h) = RfDetected ?h"
    proof (cases k)
      case 0
      then show ?thesis by simp
    next
      case (Suc j)
      with k low_run [OF dd(1,2), of j] dd(3,4) h(4) show ?thesis by simp
    qed
  next
    from assms(2) h(4) show "(RfDetected ?h \<noteq> 0) = d" by simp
  qed
  from assms(2) hh hl show "held d carrier s"
    by (simp add: carrier_def held_append)
  from envelope_body [OF e(1-3)]
  have b: "Pwm1_State ?b = POSIT" "RfDetState ?b = DETLOW" "RfDetCounter ?b = 623"
    by simp_all
  have r: "run (carrier @ [Tick True]) s = Timer_A True ?b"
    by (simp add: carrier_def run_append)
  from tick_DETLOW [OF b(1,2), of True] b(3)
  show "RfDetected (run (carrier @ [Tick True]) s) = TRUE"
    and "RfDetState (run (carrier @ [Tick True]) s) = DETEND"
    unfolding r by (simp_all add: rf_consts)
qed

lemma carrier_counts: "loops_in carrier = 0" "ticks_in carrier = 1249"
  by (simp_all add: carrier_def loops_in_append ticks_in_append ticks_in_replicate)

text \<open>What the program has seen in the state \<open>received\<close>; the prescaler is at 0 there.\<close>

lemma first_carrier:
  "held False (replicate 62 (Tick False) @ carrier) (Init power_up)"
  "RfDetConfirmSt received = IDLE"
  "Command received = FALSE"
  "Pwm1_State received = POSIT"
  "RfDetected received = TRUE"
  "RfDetState received = DETEND"
  "RfPrescaler received = 0"
  "confirmations (replicate 62 (Tick False) @ carrier @ [Tick True]) (Init power_up) = 0"
proof -
  let ?i = "Init power_up"
  let ?q = "run (replicate 62 (Tick False)) ?i"
  let ?es = "replicate 62 (Tick False) @ carrier @ [Tick True]"
  from ticks_quiet [of ?i False False 62]
  have q: "held False (replicate 62 (Tick False)) ?i" "RfDetected ?q = 0"
    by (simp_all add: Init_fields det_states bool_consts)
  from ticks_keep [of 62 False ?i] have p: "Pwm1_State ?q = POSIT"
    by (simp add: Init_fields)
  from q(2) have "(RfDetected ?q \<noteq> 0) = False" by simp
  note c = carrier_run [OF p this]
  from q(1) c(1) show "held False (replicate 62 (Tick False) @ carrier) ?i"
    by (simp add: held_append)
  have r: "received = run (carrier @ [Tick True]) ?q"
    by (simp only: received_def run_append)
  from c(2,3) show "RfDetected received = TRUE" "RfDetState received = DETEND"
    unfolding r by simp_all
  have l: "loops_in ?es = 0"
    by (simp add: loops_in_append carrier_counts)
  from isr_run [OF l, of ?i]
  show "RfDetConfirmSt received = IDLE" "Command received = FALSE"
    "Pwm1_State received = POSIT" "confirmations ?es ?i = 0"
    by (simp_all add: received_def Init_fields)
  have "ticks_in ?es = 1312"
    by (simp add: ticks_in_append ticks_in_replicate carrier_counts)
  with prescaler_phase [of ?i ?es]
  have "unat (RfPrescaler received) \<le> 100" "100 - unat (RfPrescaler received) = 100"
    by (simp_all add: received_def Init_fields rf_consts)
  then have "unat (RfPrescaler received) = 0" by arith
  then show "RfPrescaler received = 0" by (simp add: unat_eq_zero)
qed

lemma confirm_seen:
  "Command s = FALSE \<Longrightarrow> RfDetected s \<noteq> 0 \<Longrightarrow> Command (confirm s) = FALSE"
  by (auto simp: confirm_def)

lemma loop_quiet:
  assumes "Pwm1_State s = POSIT" "Command (confirm s) = FALSE"
  shows "Pwm1_State (main_loop False s) = POSIT" "Command (main_loop False s) = FALSE"
proof -
  from assms(1) have "\<not> moving (confirm s)" by (simp add: moving_def pwm_states)
  from positioning_rest [OF this, of False] assms
  show "Pwm1_State (main_loop False s) = POSIT" "Command (main_loop False s) = FALSE"
    by (simp_all add: main_loop_def bool_consts)
qed

text \<open>
  A pulse as the interrupts see it: \<open>n\<close> LOW reads and a HIGH read, during which the
  flag stays set, and a rising edge, after which the next LOW read clears it.
\<close>

lemma pulse_isr:
  assumes "RfDetected s \<noteq> 0" "RfDetState s = DETEND"
  shows "held True (replicate n (Tick False) @ [Tick True, Edge BIT6 True]) s"
    and "Pwm1_State (run (replicate n (Tick False) @ [Tick True, Edge BIT6 True]) s) = Pwm1_State s"
    and "Command (run (replicate n (Tick False) @ [Tick True, Edge BIT6 True]) s) = Command s"
    and "RfDetected (run (replicate n (Tick False) @ [Tick True, Edge BIT6 True]) s) \<noteq> 0"
    and "RfDetState (run (replicate n (Tick False) @ [Tick True, Edge BIT6 True]) s) = DETHIGH"
    and "RfDetCounter (run (replicate n (Tick False) @ [Tick True, Edge BIT6 True]) s) = 0"
proof -
  let ?b = "run (replicate n (Tick False)) s"
  let ?c = "Timer_A True ?b"
  let ?P = "replicate n (Tick False) @ [Tick True, Edge BIT6 True]"
  from ticks_quiet [of s False True n] assms
  have b: "held True (replicate n (Tick False)) s" "RfDetected ?b \<noteq> 0" "RfDetState ?b = DETEND"
    by simp_all
  from ticks_keep [of n False s]
  have b': "Pwm1_State ?b = Pwm1_State s" "Command ?b = Command s"
    by simp_all
  from tick_DETEND [OF b(3), of True] b(2) have c: "RfDetected ?c \<noteq> 0" by simp
  have r: "run ?P s = exec (Edge BIT6 True) ?c"
    by (simp add: run_append)
  from b c show "held True ?P s"
    by (simp add: held_append)
  from b' c show "Pwm1_State (run ?P s) = Pwm1_State s" "Command (run ?P s) = Command s"
    "RfDetected (run ?P s) \<noteq> 0"
    unfolding r by simp_all
  show "RfDetState (run ?P s) = DETHIGH" "RfDetCounter (run ?P s) = 0"
    unfolding r by (rule edge_arms)+
qed

text \<open>The same pulse with a loop pass at its beginning.\<close>

lemma pulse_run:
  assumes "Pwm1_State s = POSIT" "Command s = FALSE" "RfDetected s \<noteq> 0" "RfDetState s = DETEND"
  shows "held True (Loop False # replicate n (Tick False) @ [Tick True, Edge BIT6 True]) s"
    and "Pwm1_State (run (Loop False # replicate n (Tick False) @ [Tick True, Edge BIT6 True]) s) = POSIT"
    and "Command (run (Loop False # replicate n (Tick False) @ [Tick True, Edge BIT6 True]) s) = FALSE"
    and "RfDetected (run (Loop False # replicate n (Tick False) @ [Tick True, Edge BIT6 True]) s) \<noteq> 0"
    and "RfDetState (run (Loop False # replicate n (Tick False) @ [Tick True, Edge BIT6 True]) s) = DETHIGH"
    and "RfDetCounter (run (Loop False # replicate n (Tick False) @ [Tick True, Edge BIT6 True]) s) = 0"
proof -
  let ?a = "main_loop False s"
  from loop_quiet [OF assms(1) confirm_seen [OF assms(2,3)]]
  have a: "Pwm1_State ?a = POSIT" "Command ?a = FALSE" by simp_all
  from assms have a': "RfDetected ?a \<noteq> 0" "RfDetState ?a = DETEND" by simp_all
  note p = pulse_isr [OF a', of n]
  from assms(3) p(1)
  show "held True (Loop False # replicate n (Tick False) @ [Tick True, Edge BIT6 True]) s"
    by simp
  from p(2-6) a
  show "Pwm1_State (run (Loop False # replicate n (Tick False) @ [Tick True, Edge BIT6 True]) s) = POSIT"
    and "Command (run (Loop False # replicate n (Tick False) @ [Tick True, Edge BIT6 True]) s) = FALSE"
    and "RfDetected (run (Loop False # replicate n (Tick False) @ [Tick True, Edge BIT6 True]) s) \<noteq> 0"
    and "RfDetState (run (Loop False # replicate n (Tick False) @ [Tick True, Edge BIT6 True]) s) = DETHIGH"
    and "RfDetCounter (run (Loop False # replicate n (Tick False) @ [Tick True, Edge BIT6 True]) s) = 0"
    by simp_all
qed

lemma clear_run:
  assumes "Pwm1_State t = POSIT" "RfDetState t = DETHIGH" "RfDetCounter t = 0"
  shows "held False (replicate m (Tick False)) (Timer_A False t)"
    and "RfDetected (run (replicate m (Tick False)) (Timer_A False t)) = 0"
    and "RfDetected (Timer_A False t) = 0"
    and "RfDetState (Timer_A False t) = DETEND"
proof -
  from tick_DETHIGH [OF assms(1,2), of False] assms(3)
  show c: "RfDetected (Timer_A False t) = 0" "RfDetState (Timer_A False t) = DETEND"
    by (simp_all add: rf_consts bool_consts)
  from ticks_quiet [of "Timer_A False t" False False m] c
  show "held False (replicate m (Tick False)) (Timer_A False t)"
    "RfDetected (run (replicate m (Tick False)) (Timer_A False t)) = 0"
    by simp_all
qed

text \<open>A pulse with a loop pass at its end, and the absence after it.\<close>

lemma pulse_absence:
  assumes "Pwm1_State s = POSIT" "Command s = FALSE" "RfDetected s \<noteq> 0" "RfDetState s = DETEND"
  shows "held True (Loop False # (replicate n (Tick False) @ [Tick True, Edge BIT6 True])
      @ [Loop False]) s"
    and "held False (replicate m (Tick False) @ [Loop False])
      (exec (Tick False) (run (Loop False # (replicate n (Tick False) @ [Tick True, Edge BIT6 True])
        @ [Loop False]) s))"
proof -
  let ?P = "Loop False # replicate n (Tick False) @ [Tick True, Edge BIT6 True]"
  let ?p = "run ?P s"
  let ?t = "main_loop False ?p"
  note p = pulse_run [OF assms, of n]
  from loop_quiet [OF p(2) confirm_seen [OF p(3,4)]] p(5,6)
  have t: "Pwm1_State ?t = POSIT" "RfDetState ?t = DETHIGH" "RfDetCounter ?t = 0"
    by simp_all
  have r: "run (Loop False # (replicate n (Tick False) @ [Tick True, Edge BIT6 True]) @ [Loop False]) s
      = ?t"
    by (simp add: run_append)
  have "held True (?P @ [Loop False]) s"
    using p(1) by (rule held_snoc_Loop)
  then show "held True (Loop False # (replicate n (Tick False) @ [Tick True, Edge BIT6 True])
      @ [Loop False]) s"
    by simp
  note c = clear_run(1,2) [OF t, of m]
  from c(1,2) have "held False (replicate m (Tick False) @ [Loop False]) (Timer_A False ?t)"
    by (simp add: held_append)
  then show "held False (replicate m (Tick False) @ [Loop False])
      (exec (Tick False) (run (Loop False # (replicate n (Tick False) @ [Tick True, Edge BIT6 True])
        @ [Loop False]) s))"
    unfolding r by simp
qed

lemma received_ready:
  "RfDetected received \<noteq> 0" "RfPrescaler received \<le> PRESCALER"
  "RfDetConfirmSt received = IGNORE \<or> Command received \<noteq> TRUE"
  by (simp_all add: first_carrier bool_consts)



end
